theory Spec2Isabelle
  imports Complex_Main "HOL-Library.Multiset" "HOL-Library.Sublist"
begin

section \<open>Shared data model\<close>

text \<open>
  The fetchers exchange JSON objects. A JSON object is a Python \<^verbatim>\<open>dict\<close>, modelled as a
  map from field names to JSON values; \<^verbatim>\<open>d.get(k, default)\<close> is a case split on the
  lookup.
\<close>

datatype jval = JNull | JStr string | JNum int

type_synonym jobj = "string \<rightharpoonup> jval"

section \<open>Position splitting (subgraph\_api/fetch\_subgraph.py)\<close>

text \<open>
  \<^verbatim>\<open>balance_str = pos.get("balance", "0")\<close>: the stored value when the key is
  present (whatever its JSON type), the string "0" when it is absent.
\<close>

definition balance_str :: "jobj \<Rightarrow> jval" where
  "balance_str pos = (case pos ''balance'' of None \<Rightarrow> JStr ''0'' | Some v \<Rightarrow> v)"

text \<open>
  The \<^verbatim>\<open>for pos in positions\<close> loop of \<^verbatim>\<open>split_positions\<close>, with the two
  accumulators \<^verbatim>\<open>active\<close> and \<^verbatim>\<open>closed\<close> passed explicitly
  (\<open>closed\<close> is a constant of the library, hence the suffix);
  \<^verbatim>\<open>append\<close> adds at the end.
\<close>

fun split_loop :: "jobj list \<Rightarrow> jobj list \<Rightarrow> jobj list \<Rightarrow> jobj list \<times> jobj list" where
  "split_loop [] active_acc closed_acc = (active_acc, closed_acc)"
| "split_loop (pos # rest) active_acc closed_acc =
     (if balance_str pos = JStr ''0''
      then split_loop rest active_acc (closed_acc @ [pos])
      else split_loop rest (active_acc @ [pos]) closed_acc)"

definition split_positions :: "jobj list \<Rightarrow> jobj list \<times> jobj list" where
  "split_positions positions = split_loop positions [] []"

section \<open>Reference price selection (price\_history.py)\<close>

text \<open>
  One entry of the price history is an object with a timestamp \<^verbatim>\<open>t\<close> and a price
  \<^verbatim>\<open>p\<close>; either key may be missing (\<open>None\<close>).
\<close>

record price_entry =
  entry_t :: "int option"
  entry_p :: "real option"

text \<open>\<^verbatim>\<open>entry.get("t", 0)\<close>\<close>

definition entry_ts :: "price_entry \<Rightarrow> int" where
  "entry_ts entry = (case entry_t entry of None \<Rightarrow> 0 | Some v \<Rightarrow> v)"

text \<open>
  The \<^verbatim>\<open>for entry in history\<close> loop that collects \<^verbatim>\<open>valid_entries\<close>:
  an entry is kept when \<^verbatim>\<open>min_ts <= entry_ts <= match_ts\<close>.
\<close>

fun valid_entries_loop ::
  "int \<Rightarrow> int \<Rightarrow> price_entry list \<Rightarrow> price_entry list \<Rightarrow> price_entry list" where
  "valid_entries_loop min_ts match_ts [] valid_entries = valid_entries"
| "valid_entries_loop min_ts match_ts (entry # rest) valid_entries =
     (if min_ts \<le> entry_ts entry \<and> entry_ts entry \<le> match_ts
      then valid_entries_loop min_ts match_ts rest (valid_entries @ [entry])
      else valid_entries_loop min_ts match_ts rest valid_entries)"

text \<open>
  \<^verbatim>\<open>extract_match_start_price(price_history, match_datetime, max_hours_before)\<close>.
  The argument \<open>price_history\<close> is \<open>None\<close> for Python's \<^verbatim>\<open>None\<close>, and otherwise
  holds the value stored under the key \<^verbatim>\<open>"history"\<close> (\<open>None\<close> when the key is
  absent, which covers the empty dict). \<open>match_ts\<close> stands for
  \<^verbatim>\<open>int(match_datetime.timestamp())\<close>. Python's \<^verbatim>\<open>sorted(..., reverse=True)\<close> is
  a stable sort in descending key order, which on integer keys is the stable ascending
  sort on the negated key. The final \<^verbatim>\<open>valid_entries_sorted[0]\<close> is only reached with
  a non-empty list.
\<close>

definition extract_match_start_price ::
  "price_entry list option option \<Rightarrow> int \<Rightarrow> int \<Rightarrow> price_entry option" where
  "extract_match_start_price price_history match_ts max_hours_before =
     (case price_history of
        None \<Rightarrow> None
      | Some None \<Rightarrow> None
      | Some (Some history) \<Rightarrow>
          if history = [] then None
          else
            let max_seconds_before = max_hours_before * 3600;
                min_ts = match_ts - max_seconds_before;
                valid_entries = valid_entries_loop min_ts match_ts history []
            in if valid_entries = [] then None
               else (case sort_key (\<lambda>x. - entry_ts x) valid_entries of
                       [] \<Rightarrow> None
                     | first # _ \<Rightarrow> Some first))"

section \<open>Gated market fetcher (fetch\_clv.py)\<close>

subsection \<open>One page of trades, inside the gate\<close>

text \<open>
  The decoded body of a response: \<^verbatim>\<open>response.json()\<close> yields a list, or an object
  whose \<^verbatim>\<open>'trades'\<close> key may be missing, or does not decode at all.
\<close>

datatype 'a body = BodyList "'a list" | BodyDict "'a list option" | BodyInvalid

text \<open>
  What one \<^verbatim>\<open>requests.get\<close> gives back: it raises
  \<^verbatim>\<open>requests.exceptions.RequestException\<close>, it raises something else, or it returns a
  response with a status code and a body.
\<close>

datatype 'a http_result = RequestException | OtherException | Response int "'a body"

text \<open>
  The observable actions of a page call, in program order: taking and giving back the
  semaphore, issuing the HTTP request, and sleeping for a number of seconds.
\<close>

datatype event = Acquire | Release | Get | Sleep nat

text \<open>A call either returns the pair \<^verbatim>\<open>(trades, success)\<close> or lets an exception escape.\<close>

datatype 'a outcome = Returned "'a list" bool | Raised

text \<open>
  The \<^verbatim>\<open>while internal_retry_count <= max_retries\<close> loop of
  \<^verbatim>\<open>fetch_trades_for_single_market_page\<close>. Every iteration issues one request and
  either leaves the function or adds one to \<^verbatim>\<open>internal_retry_count\<close>, so the request
  issued when the counter is \<open>k\<close> is the \<open>k\<close>-th one of the call: \<open>http k\<close> is its result.
  The loop returns the actions performed and the outcome.
\<close>

function page_loop ::
  "(nat \<Rightarrow> 'a http_result) \<Rightarrow> int \<Rightarrow> nat \<Rightarrow> event list \<times> 'a outcome" where
  "page_loop http max_retries internal_retry_count =
     (if int internal_retry_count \<le> max_retries then
        (case http internal_retry_count of
           RequestException \<Rightarrow>
             if int (internal_retry_count + 1) > max_retries
             then ([Get], Returned [] False)
             else (case page_loop http max_retries (internal_retry_count + 1) of
                     (evs, res) \<Rightarrow> (Get # Sleep 5 # evs, res))
         | OtherException \<Rightarrow> ([Get], Raised)
         | Response status_code data \<Rightarrow>
             if status_code = 200 then
               (case data of
                  BodyList trades \<Rightarrow> ([Get], Returned trades True)
                | BodyDict None \<Rightarrow> ([Get], Returned [] True)
                | BodyDict (Some trades) \<Rightarrow> ([Get], Returned trades True)
                | BodyInvalid \<Rightarrow> ([Get], Raised))
             else if status_code = 429 \<or> status_code = 408 then
               if int (internal_retry_count + 1) > max_retries
               then ([Get], Returned [] False)
               else (case page_loop http max_retries (internal_retry_count + 1) of
                       (evs, res) \<Rightarrow>
                         (Get # Sleep (min (10 + 2 ^ (internal_retry_count + 1)) 30) # evs, res))
             else ([Get], Returned [] False))
      else ([], Returned [] False))"
  by pat_completeness auto
termination
  by (relation "measure (\<lambda>(http, max_retries, k). nat (max_retries + 1 - int k))") auto

declare page_loop.simps [simp del]

text \<open>
  \<^verbatim>\<open>semaphore.acquire()\<close> comes before the \<^verbatim>\<open>try\<close>, \<^verbatim>\<open>semaphore.release()\<close>
  is the \<^verbatim>\<open>finally\<close> block: it runs after the loop whether the loop returned or raised.
\<close>

definition fetch_trades_for_single_market_page ::
  "(nat \<Rightarrow> 'a http_result) \<Rightarrow> int \<Rightarrow> event list \<times> 'a outcome" where
  "fetch_trades_for_single_market_page http max_retries =
     (case page_loop http max_retries 0 of
        (evs, res) \<Rightarrow> (Acquire # evs @ [Release], res))"

subsection \<open>The semaphore shared by the worker threads\<close>

text \<open>
  \<^verbatim>\<open>fetch_clv\<close> creates one \<^verbatim>\<open>Semaphore(simultaneous_requests)\<close> and hands it to
  every page call of the run. A worker thread of the pool is either between two page calls
  or inside one, with the actions of that call still to perform. The state of a run is the
  number of free permits and the state of every thread.
\<close>

datatype thread = Idle | Running "event list"

text \<open>
  One step of one thread (\<open>i\<close>): it starts a page call (whatever the server will answer
  and whatever the retry budget), takes a permit when one is free (\<^verbatim>\<open>acquire\<close> blocks
  otherwise), gives its permit back, performs a request or a sleep, or leaves the call.
\<close>

inductive step :: "nat \<times> thread list \<Rightarrow> nat \<times> thread list \<Rightarrow> bool" where
  start: "i < length ts \<Longrightarrow> ts ! i = Idle \<Longrightarrow>
          step (permits, ts)
               (permits, ts[i := Running (fst (fetch_trades_for_single_market_page
                                                (http :: nat \<Rightarrow> jobj http_result) max_retries))])"
| acquire: "i < length ts \<Longrightarrow> ts ! i = Running (Acquire # evs) \<Longrightarrow> 0 < permits \<Longrightarrow>
          step (permits, ts) (permits - 1, ts[i := Running evs])"
| release: "i < length ts \<Longrightarrow> ts ! i = Running (Release # evs) \<Longrightarrow>
          step (permits, ts) (permits + 1, ts[i := Running evs])"
| get: "i < length ts \<Longrightarrow> ts ! i = Running (Get # evs) \<Longrightarrow>
          step (permits, ts) (permits, ts[i := Running evs])"
| sleep: "i < length ts \<Longrightarrow> ts ! i = Running (Sleep d # evs) \<Longrightarrow>
          step (permits, ts) (permits, ts[i := Running evs])"
| leave: "i < length ts \<Longrightarrow> ts ! i = Running [] \<Longrightarrow>
          step (permits, ts) (permits, ts[i := Idle])"

text \<open>
  A run starts with all \<open>simultaneous_requests\<close> permits free and \<open>max_workers\<close> idle
  threads.
\<close>

definition reachable :: "nat \<Rightarrow> nat \<Rightarrow> nat \<times> thread list \<Rightarrow> bool" where
  "reachable simultaneous_requests max_workers s =
     step\<^sup>*\<^sup>* (simultaneous_requests, replicate max_workers Idle) s"

text \<open>A thread has an HTTP call in flight when the request is the action it is performing.\<close>

fun in_flight :: "thread \<Rightarrow> bool" where
  "in_flight (Running (Get # evs)) = True"
| "in_flight _ = False"

definition in_flight_count :: "nat \<times> thread list \<Rightarrow> nat" where
  "in_flight_count s = length (filter in_flight (snd s))"

subsection \<open>Vocabulary for the retry policy of a page call\<close>

text \<open>
  The results after which the page loop goes round again: a
  \<^verbatim>\<open>RequestException\<close>, and the statuses 429 and 408.
\<close>

definition retryable :: "'a http_result \<Rightarrow> bool" where
  "retryable r =
     (case r of RequestException \<Rightarrow> True | OtherException \<Rightarrow> False
      | Response status_code data \<Rightarrow> status_code = 429 \<or> status_code = 408)"

text \<open>
  The pause before the retry that follows the \<open>k\<close>-th request: 5 seconds after a
  \<^verbatim>\<open>RequestException\<close>, \<^verbatim>\<open>min(10 + 2 ** internal_retry_count, 30)\<close> after a 429 or
  408, the counter having been incremented to \<open>k + 1\<close> by then.
\<close>

definition retry_delay :: "'a http_result \<Rightarrow> nat \<Rightarrow> nat" where
  "retry_delay r k = (case r of RequestException \<Rightarrow> 5 | _ \<Rightarrow> min (10 + 2 ^ (k + 1)) 30)"

text \<open>The actions of the first \<open>k\<close> rounds when each of them ends in a retry.\<close>

definition retry_rounds :: "(nat \<Rightarrow> 'a http_result) \<Rightarrow> nat \<Rightarrow> event list" where
  "retry_rounds http k = concat (map (\<lambda>i. [Get, Sleep (retry_delay (http i) i)]) [0..<k])"

text \<open>What the loop returns on a result it does not retry.\<close>

definition final_outcome :: "'a http_result \<Rightarrow> 'a outcome" where
  "final_outcome r =
     (case r of
        Response status_code data \<Rightarrow>
          if status_code = 200 then
            (case data of
               BodyList trades \<Rightarrow> Returned trades True
             | BodyDict None \<Rightarrow> Returned [] True
             | BodyDict (Some trades) \<Rightarrow> Returned trades True
             | BodyInvalid \<Rightarrow> Raised)
          else Returned [] False
      | _ \<Rightarrow> Raised)"

subsection \<open>Vocabulary for the gate invariant\<close>

text \<open>
  A thread holds a permit from its \<^verbatim>\<open>acquire\<close> to its \<^verbatim>\<open>release\<close>: the release is
  still to come and the acquire is not.
\<close>

definition holds_permit :: "thread \<Rightarrow> bool" where
  "holds_permit t =
     (case t of Idle \<Rightarrow> False | Running evs \<Rightarrow> Release \<in> set evs \<and> Acquire \<notin> set evs)"

definition permits_held :: "thread list \<Rightarrow> nat" where
  "permits_held ts = length (filter holds_permit ts)"

text \<open>
  The shapes the remaining actions of a thread can have: the whole of a page call, a page
  call after its acquire, or nothing.
\<close>

definition thread_ok :: "thread \<Rightarrow> bool" where
  "thread_ok t =
     (case t of
        Idle \<Rightarrow> True
      | Running evs \<Rightarrow>
          evs = [] \<or>
          (\<exists>b. Acquire \<notin> set b \<and> Release \<notin> set b
               \<and> (evs = Acquire # b @ [Release] \<or> evs = b @ [Release])))"

text \<open>
  The invariant of a run: free permits and held permits add up to the capacity of the
  semaphore, and every thread is at a point of a page call.
\<close>

definition gate_inv :: "nat \<Rightarrow> nat \<times> thread list \<Rightarrow> bool" where
  "gate_inv cap s = (fst s + permits_held (snd s) = cap \<and> (\<forall>t \<in> set (snd s). thread_ok t))"

subsection \<open>Two-phase orchestration over the markets\<close>

text \<open>
  What \<^verbatim>\<open>future.result()\<close> gives for one market: the worker raised, or
  \<^verbatim>\<open>fetch_trades_for_market_complete\<close> returned the trades and the success flag.
\<close>

datatype market_result = Crashed | Fetched "jobj list" bool

text \<open>
  The \<^verbatim>\<open>for future in as_completed(future_to_market)\<close> loop of
  \<^verbatim>\<open>_run_market_processing_loop\<close>, over the markets in the order their futures
  complete, with the two accumulators. A successful market has its trades tagged with
  \<^verbatim>\<open>market_id_v3\<close> and appended; a failed or crashed market is appended to the failed
  list.
\<close>

fun process_loop ::
  "(string \<Rightarrow> market_result) \<Rightarrow> string list \<Rightarrow> jobj list \<Rightarrow> string list
     \<Rightarrow> jobj list \<times> string list" where
  "process_loop result [] all_trades_accumulator failed_markets_accumulator =
     (all_trades_accumulator, failed_markets_accumulator)"
| "process_loop result (market_id # rest) all_trades_accumulator failed_markets_accumulator =
     (case result market_id of
        Crashed \<Rightarrow>
          process_loop result rest all_trades_accumulator
            (failed_markets_accumulator @ [market_id])
      | Fetched trades success \<Rightarrow>
          if success then
            if trades \<noteq> [] then
              process_loop result rest
                (all_trades_accumulator
                   @ map (\<lambda>trade. trade(''market_id_v3'' \<mapsto> JStr market_id)) trades)
                failed_markets_accumulator
            else process_loop result rest all_trades_accumulator failed_markets_accumulator
          else
            process_loop result rest all_trades_accumulator
              (failed_markets_accumulator @ [market_id]))"

text \<open>
  \<^verbatim>\<open>_run_market_processing_loop\<close>: one future is submitted per market of
  \<^verbatim>\<open>markets_to_process\<close>; \<open>completion\<close> gives the order in which the futures complete
  (it depends on the scheduler and the network).
\<close>

definition run_market_processing_loop ::
  "(string \<Rightarrow> market_result) \<Rightarrow> (string list \<Rightarrow> string list) \<Rightarrow> string list
     \<Rightarrow> jobj list \<times> string list" where
  "run_market_processing_loop result completion markets_to_process =
     process_loop result (completion markets_to_process) [] []"

text \<open>
  \<^verbatim>\<open>df['conditionId'].dropna().unique().tolist()\<close>: the values that are present, each
  once, in the order of first appearance.
\<close>

definition dropna_unique :: "string option list \<Rightarrow> string list" where
  "dropna_unique column = rev (remdups (rev (map the (filter (\<lambda>c. c \<noteq> None) column))))"

text \<open>
  The lines \<^verbatim>\<open>fetch_all_trades_parallel\<close> prints about the retry (the progress lines and
  the timer are left out).
\<close>

datatype report =
  Retrying nat | PermanentlyFailed nat | FailedMarket string | AllRecovered | NoFailures

text \<open>
  A run of \<^verbatim>\<open>fetch_all_trades_parallel\<close>: the markets submitted to the pool with the
  number of the pass, the value of the local \<^verbatim>\<open>final_failed_markets\<close> (empty when there
  is no second pass), the lines printed, and the value returned: the data frame built from
  \<^verbatim>\<open>all_trades\<close>, that is its rows.
\<close>

record run =
  submitted :: "(nat \<times> string) list"
  final_failed_markets :: "string list"
  printed :: "report list"
  returned :: "jobj list"

text \<open>
  \<open>result p\<close> and \<open>completion p\<close> are the market results and the completion order of
  pass \<open>p\<close> (1 or 2): the server may answer differently in the second pass.
\<close>

definition fetch_all_trades_parallel_run ::
  "(nat \<Rightarrow> string \<Rightarrow> market_result) \<Rightarrow> (nat \<Rightarrow> string list \<Rightarrow> string list)
     \<Rightarrow> string option list \<Rightarrow> run" where
  "fetch_all_trades_parallel_run result completion column =
     (let condition_ids = dropna_unique column in
      case run_market_processing_loop (result 1) (completion 1) condition_ids of
        (all_trades, failed_markets) \<Rightarrow>
          if failed_markets \<noteq> [] then
            (case run_market_processing_loop (result 2) (completion 2) failed_markets of
               (retried_trades, final_failed) \<Rightarrow>
                 \<lparr>submitted = map (Pair 1) condition_ids @ map (Pair 2) failed_markets,
                  final_failed_markets = final_failed,
                  printed = Retrying (length failed_markets) #
                    (if final_failed \<noteq> []
                     then PermanentlyFailed (length final_failed) # map FailedMarket final_failed
                     else [AllRecovered]),
                  returned = all_trades @ retried_trades\<rparr>)
          else
            \<lparr>submitted = map (Pair 1) condition_ids,
             final_failed_markets = [],
             printed = [NoFailures],
             returned = all_trades\<rparr>)"

definition fetch_all_trades_parallel ::
  "(nat \<Rightarrow> string \<Rightarrow> market_result) \<Rightarrow> (nat \<Rightarrow> string list \<Rightarrow> string list)
     \<Rightarrow> string option list \<Rightarrow> jobj list" where
  "fetch_all_trades_parallel result completion column =
     returned (fetch_all_trades_parallel_run result completion column)"

text \<open>Whether a market counts as failed in a pass, and the tagged trades it contributes.\<close>

definition failed_in :: "(string \<Rightarrow> market_result) \<Rightarrow> string \<Rightarrow> bool" where
  "failed_in result market_id =
     (case result market_id of Crashed \<Rightarrow> True | Fetched trades success \<Rightarrow> \<not> success)"

definition collected :: "(string \<Rightarrow> market_result) \<Rightarrow> string \<Rightarrow> jobj list" where
  "collected result market_id =
     (case result market_id of
        Crashed \<Rightarrow> []
      | Fetched trades success \<Rightarrow>
          if success then map (\<lambda>trade. trade(''market_id_v3'' \<mapsto> JStr market_id)) trades
          else [])"

section \<open>CLV aggregation (rest.py)\<close>

text \<open>
  The columns of the two data frames that \<^verbatim>\<open>calculate_clv\<close> reads. A row of the
  positions frame after \<^verbatim>\<open>start_time\<close> has been converted to unix seconds; the closing
  price \<^verbatim>\<open>match_start_price\<close> is \<open>None\<close> when it is NaN. A row of the trades frame;
  its timestamp is in milliseconds. Prices and sizes are Python floats, modelled as real
  numbers: the rounding of floating-point arithmetic is not part of the model.
\<close>

record position_row =
  pos_conditionId :: string
  pos_asset :: string
  start_time_unix :: int
  match_start_price :: "real option"

record trade_row =
  tr_conditionId :: string
  tr_asset :: string
  tr_price :: real
  tr_size :: real
  tr_timestamp :: int

text \<open>
  \<^verbatim>\<open>trades_df['timestamp'].astype(float) // 1000\<close>: floor division by 1000.
\<close>

definition timestamp_seconds :: "trade_row \<Rightarrow> int" where
  "timestamp_seconds trade = tr_timestamp trade div 1000"

text \<open>
  The group of \<^verbatim>\<open>trades_df.groupby(['conditionId', 'asset'])\<close> with a given key: the
  trades with that key, in the order of the frame.
\<close>

definition group_df :: "trade_row list \<Rightarrow> string \<Rightarrow> string \<Rightarrow> trade_row list" where
  "group_df trades_df condition_id asset =
     filter (\<lambda>trade. tr_conditionId trade = condition_id \<and> tr_asset trade = asset) trades_df"

text \<open>
  What the body of the loop does with one group: it skips it silently, records a reason in
  \<^verbatim>\<open>clv_reasons\<close>, or stores a result in \<^verbatim>\<open>clv_results\<close>.
\<close>

record clv_result =
  price_clv :: real
  odds_clv :: real
  avg_price :: real
  closing_price :: real

datatype clv_outcome = Skipped | Reason string | Clv clv_result

text \<open>
  The body of the loop over the groups. \<^verbatim>\<open>safe_divide\<close> is imported from
  \<^verbatim>\<open>helpers\<close>, whose definition is not among the sources, so it is a parameter here.
  \<^verbatim>\<open>df_lookup.loc[(condition_id, asset)]\<close> followed by \<^verbatim>\<open>iloc[0]\<close> is the first
  row of the positions frame with that key. With rows of these types no statement of the
  body raises, so the \<^verbatim>\<open>except\<close> branch (reason \<^verbatim>\<open>erro_processamento\<close>) has no
  counterpart.
\<close>

definition clv_group ::
  "(real \<Rightarrow> real \<Rightarrow> real) \<Rightarrow> position_row list \<Rightarrow> string \<Rightarrow> string \<Rightarrow> trade_row list
     \<Rightarrow> clv_outcome" where
  "clv_group safe_divide clv_df condition_id asset group_rows =
     (case find (\<lambda>row. pos_conditionId row = condition_id \<and> pos_asset row = asset) clv_df of
        None \<Rightarrow> Skipped
      | Some lookup_row \<Rightarrow>
          let start_time = start_time_unix lookup_row in
          (case match_start_price lookup_row of
             None \<Rightarrow> Reason ''closing_price_is_nan''
           | Some closing \<Rightarrow>
               let filtered_df = filter (\<lambda>trade. timestamp_seconds trade < start_time) group_rows;
                   total_size = sum_list (map tr_size filtered_df)
               in if total_size = 0 then Reason ''sem_trades_pre_market''
                  else
                    let avg = sum_list (map (\<lambda>trade. tr_size trade * tr_price trade) filtered_df)
                                / total_size
                    in Clv \<lparr>price_clv = closing - avg,
                            odds_clv = safe_divide 1 avg - safe_divide 1 closing,
                            avg_price = avg,
                            closing_price = closing\<rparr>))"

section \<open>Offset pager (fetch.py)\<close>

text \<open>
  What the positions endpoint gives for one request: a status code with the decoded list
  of records, or no reply (the request or the decoding raised).
\<close>

datatype 'a reply = Reply int "'a list" | NoReply

text \<open>
  The result of \<^verbatim>\<open>page\<close>: \<^verbatim>\<open>success\<close> with the data on status 200, the error
  \<^verbatim>\<open>"Rate limited"\<close> on status 429, another error otherwise. The sleep that
  \<^verbatim>\<open>page\<close> takes on a 429 has a random part and is left out.
\<close>

datatype 'a page_result = Success "'a list" | RateLimited | Failure

definition page :: "'a reply \<Rightarrow> 'a page_result" where
  "page response =
     (case response of
        Reply status_code data \<Rightarrow>
          if status_code = 200 then Success data
          else if status_code = 429 then RateLimited
          else Failure
      | NoReply \<Rightarrow> Failure)"

text \<open>
  How the inner \<^verbatim>\<open>while retry_count < max_retries\<close> loop of \<^verbatim>\<open>fetch_range\<close> ends:
  with a non-empty page (\<^verbatim>\<open>break\<close> after the append), with the retry budget used up
  (\<^verbatim>\<open>break\<close>, then the \<^verbatim>\<open>break\<close> of the outer loop), or with
  \<^verbatim>\<open>return all_data\<close> (an empty page or an error that is not a rate limit).
\<close>

datatype 'a inner_outcome = Page "'a list" | Exhausted | Return

text \<open>
  The inner loop, with \<^verbatim>\<open>max_retries = 5\<close>. The server is asked with the number of
  the request (\<open>n\<close>-th request of this worker), the offset and the limit; the loop
  returns how it ended and the number of requests made so far.
\<close>

function inner_loop ::
  "(nat \<Rightarrow> int \<Rightarrow> int \<Rightarrow> 'a reply) \<Rightarrow> int \<Rightarrow> int \<Rightarrow> nat \<Rightarrow> nat \<Rightarrow> 'a inner_outcome \<times> nat" where
  "inner_loop server current_offset max_limit n retry_count =
     (if retry_count < 5 then
        (case page (server n current_offset max_limit) of
           Success data \<Rightarrow> if data \<noteq> [] then (Page data, n + 1) else (Return, n + 1)
         | RateLimited \<Rightarrow>
             if retry_count + 1 \<ge> 5 then (Exhausted, n + 1)
             else inner_loop server current_offset max_limit (n + 1) (retry_count + 1)
         | Failure \<Rightarrow> (Return, n + 1))
      else (Exhausted, n))"
  by pat_completeness auto
termination
  by (relation "measure (\<lambda>(server, current_offset, max_limit, n, retry_count). 5 - retry_count)") auto

declare inner_loop.simps [simp del]

text \<open>
  Lines 119 to 128: after the append, a bounded worker whose offset went past
  \<^verbatim>\<open>end_offset\<close> drops the excess from the tail (\<^verbatim>\<open>all_data[:-excess]\<close>) and sets the
  offset to \<^verbatim>\<open>end_offset\<close>.
\<close>

definition trim_excess :: "bool \<Rightarrow> int \<Rightarrow> 'a list \<Rightarrow> int \<Rightarrow> 'a list \<times> int" where
  "trim_excess bounded end_offset all_data current_offset =
     (if bounded \<and> current_offset > end_offset then
        let excess = current_offset - end_offset in
        if excess > 0 then
          (if excess \<le> int (length all_data)
           then take (length all_data - nat excess) all_data
           else [],
           end_offset)
        else (all_data, current_offset)
      else (all_data, current_offset))"

text \<open>
  The outer \<^verbatim>\<open>while True\<close> loop of \<^verbatim>\<open>fetch_range\<close>; \<open>bounded\<close> stands for
  \<^verbatim>\<open>process_id < num_processes\<close>, which does not change. The loop need not end (a
  worker that is not bounded goes on for as long as the server sends non-empty pages), so
  the result is optional: \<open>None\<close> when the loop runs forever.
\<close>

partial_function (option) fetch_range_loop ::
  "(nat \<Rightarrow> int \<Rightarrow> int \<Rightarrow> 'a reply) \<Rightarrow> int \<Rightarrow> bool \<Rightarrow> 'a list \<Rightarrow> int \<Rightarrow> int \<Rightarrow> nat
     \<Rightarrow> 'a list option" where
  "fetch_range_loop server end_offset bounded all_data current_offset max_limit n =
     (if bounded \<and> current_offset \<ge> end_offset then Some all_data
      else if bounded \<and> end_offset - current_offset \<le> 0 then Some all_data
      else
        let max_limit = (if bounded then min max_limit (end_offset - current_offset)
                         else max_limit)
        in (case inner_loop server current_offset max_limit n 0 of
              (Page data, n') \<Rightarrow>
                (case trim_excess bounded end_offset (all_data @ data)
                        (current_offset + int (length data)) of
                   (all_data, current_offset) \<Rightarrow>
                     if bounded \<and> current_offset \<ge> end_offset then Some all_data
                     else fetch_range_loop server end_offset bounded all_data current_offset
                            max_limit n')
            | (Exhausted, n') \<Rightarrow> Some all_data
            | (Return, n') \<Rightarrow> Some all_data))"

definition fetch_range ::
  "(nat \<Rightarrow> int \<Rightarrow> int \<Rightarrow> 'a reply) \<Rightarrow> int \<Rightarrow> int \<Rightarrow> int \<Rightarrow> int \<Rightarrow> int \<Rightarrow> 'a list option" where
  "fetch_range server start_offset end_offset process_id num_processes max_limit =
     fetch_range_loop server end_offset (process_id < num_processes) [] start_offset max_limit 0"

text \<open>
  The windows \<^verbatim>\<open>all_data_parallel\<close> builds, \<^verbatim>\<open>(start_offset, end_offset, process_id)\<close>
  for \<^verbatim>\<open>i in range(num_processes)\<close>, and the result of the worker of each window
  (\<open>server process_id\<close> is what the server answers to that worker; \<^verbatim>\<open>max_limit\<close> is
  left at its default 500).
\<close>

definition ranges :: "nat \<Rightarrow> int \<Rightarrow> (int \<times> int \<times> int) list" where
  "ranges num_processes records_per_process =
     map (\<lambda>i. (int i * records_per_process, (int i + 1) * records_per_process, int i + 1))
       [0..<num_processes]"

definition worker_results ::
  "(int \<Rightarrow> nat \<Rightarrow> int \<Rightarrow> int \<Rightarrow> 'a reply) \<Rightarrow> nat \<Rightarrow> int \<Rightarrow> 'a list option list" where
  "worker_results server num_processes records_per_process =
     map (\<lambda>(start_offset, end_offset, process_id).
            fetch_range (server process_id) start_offset end_offset process_id
              (int num_processes) 500)
       (ranges num_processes records_per_process)"

section \<open>Graph pager (subgraph\_api/fetch\_subgraph.py)\<close>

text \<open>
  The dictionary \<^verbatim>\<open>query_graphql\<close> returns, as far as \<^verbatim>\<open>get_user_positions\<close> looks at
  it: it has the key \<^verbatim>\<open>"error"\<close>; or it has a non-empty \<^verbatim>\<open>"data"\<close>, with the list
  under \<^verbatim>\<open>"userBalances"\<close> when that key is present; or it has neither (such as the
  answer of a server that reports a GraphQL error with no data).
\<close>

datatype 'a gql_result = GqlError | GqlData "'a list option" | GqlNoData

text \<open>
  What \<^verbatim>\<open>requests.post\<close> followed by \<^verbatim>\<open>raise_for_status\<close> and \<^verbatim>\<open>json\<close> gives: a
  \<^verbatim>\<open>RequestException\<close> (a transport failure or an HTTP error status), or the
  decoded body.
\<close>

datatype 'a post_result = PostRaised | PostJson "'a gql_result"

text \<open>\<^verbatim>\<open>query_graphql\<close> turns the exception into a dictionary with the key \<^verbatim>\<open>"error"\<close>.\<close>

definition query_graphql :: "'a post_result \<Rightarrow> 'a gql_result" where
  "query_graphql response = (case response of PostRaised \<Rightarrow> GqlError | PostJson body \<Rightarrow> body)"

text \<open>
  \<^verbatim>\<open>get_user_positions\<close>: one page. \<open>transform\<close> stands for the dictionary built
  from each raw position (its \<^verbatim>\<open>id\<close>, \<^verbatim>\<open>user\<close>, \<^verbatim>\<open>balance\<close> and asset fields).
\<close>

definition get_user_positions :: "('a \<Rightarrow> 'b) \<Rightarrow> 'a post_result \<Rightarrow> 'b list" where
  "get_user_positions transform response =
     (case query_graphql response of
        GqlError \<Rightarrow> []
      | GqlData None \<Rightarrow> []
      | GqlData (Some positions) \<Rightarrow> map transform positions
      | GqlNoData \<Rightarrow> [])"

text \<open>
  The \<^verbatim>\<open>while True\<close> loop of \<^verbatim>\<open>get_all_user_positions\<close>. The server is asked with
  the number of the request, \<^verbatim>\<open>first\<close> and \<^verbatim>\<open>skip\<close>. The loop has no bound of its
  own, so the result is optional: \<open>None\<close> when it runs forever.
\<close>

partial_function (option) get_all_loop ::
  "(nat \<Rightarrow> int \<Rightarrow> int \<Rightarrow> 'a post_result) \<Rightarrow> ('a \<Rightarrow> 'b) \<Rightarrow> int \<Rightarrow> 'b list \<Rightarrow> int \<Rightarrow> nat
     \<Rightarrow> 'b list option" where
  "get_all_loop server transform batch_size all_positions skip batch_num =
     (let batch = get_user_positions transform (server batch_num batch_size skip) in
      if batch = [] then Some all_positions
      else
        let all_positions = all_positions @ batch in
        if int (length batch) < batch_size then Some all_positions
        else get_all_loop server transform batch_size all_positions (skip + batch_size)
               (batch_num + 1))"

definition get_all_user_positions ::
  "(nat \<Rightarrow> int \<Rightarrow> int \<Rightarrow> 'a post_result) \<Rightarrow> ('a \<Rightarrow> 'b) \<Rightarrow> int \<Rightarrow> 'b list option" where
  "get_all_user_positions server transform batch_size =
     get_all_loop server transform batch_size [] 0 0"

text \<open>
  The page the \<open>k\<close>-th request gets when every request before it moved \<^verbatim>\<open>skip\<close> on by
  the batch size.
\<close>

definition nth_page ::
  "(nat \<Rightarrow> int \<Rightarrow> int \<Rightarrow> 'a post_result) \<Rightarrow> ('a \<Rightarrow> 'b) \<Rightarrow> int \<Rightarrow> nat \<Rightarrow> 'b list" where
  "nth_page server transform batch_size k =
     get_user_positions transform (server k batch_size (int k * batch_size))"

section \<open>Batched PNL fetch (subgraph\_api/fetch\_subgraph.py)\<close>

text \<open>
  The branch one iteration of the loop of \<^verbatim>\<open>_fetch_batch_pnl\<close> takes on the result of
  its request: status 200 with a non-empty list; status 200 with anything else that
  decodes (\<^verbatim>\<open>not data or not isinstance(data, list)\<close>); status 429; a status of
  \<^verbatim>\<open>fatal_errors\<close>; another status; or an exception (from the request or from the
  decoding of a 200 body), caught by \<^verbatim>\<open>except Exception\<close>.
\<close>

datatype 'a pnl_page = PnlData "'a list" | PnlStop | PnlRateLimit | PnlFatal | PnlOther | PnlExn

definition pnl_page :: "'a http_result \<Rightarrow> 'a pnl_page" where
  "pnl_page r =
     (case r of
        RequestException \<Rightarrow> PnlExn
      | OtherException \<Rightarrow> PnlExn
      | Response status_code body \<Rightarrow>
          if status_code = 200 then
            (case body of
               BodyList data \<Rightarrow> if data = [] then PnlStop else PnlData data
             | BodyDict d \<Rightarrow> PnlStop
             | BodyInvalid \<Rightarrow> PnlExn)
          else if status_code = 429 then PnlRateLimit
          else if status_code \<in> {400, 401, 403, 404} then PnlFatal
          else PnlOther)"

text \<open>The requests (with their offset) and the sleeps (in seconds) of a batch fetch.\<close>

datatype pnl_event = PnlGet int | PnlSleep real

text \<open>
  The \<^verbatim>\<open>while True\<close> loop of \<^verbatim>\<open>_fetch_batch_pnl\<close>. The server is asked with the
  number of the request and the offset (the other parameters do not change during a
  batch). The loop returns \<^verbatim>\<open>batch_data\<close> and the events of the run; the result is
  optional, \<open>None\<close> standing for a loop that runs forever.
\<close>

partial_function (option) pnl_loop ::
  "(nat \<Rightarrow> int \<Rightarrow> 'a http_result) \<Rightarrow> int \<Rightarrow> int \<Rightarrow> 'a list \<Rightarrow> int \<Rightarrow> nat \<Rightarrow> nat
     \<Rightarrow> pnl_event list \<Rightarrow> ('a list \<times> pnl_event list) option" where
  "pnl_loop server limit max_retries batch_data offset retry_count n events =
     (case pnl_page (server n offset) of
        PnlData data \<Rightarrow>
          if int (length data) < limit
          then Some (batch_data @ data, events @ [PnlGet offset])
          else if offset + limit \<ge> 10000
          then Some (batch_data @ data, events @ [PnlGet offset])
          else pnl_loop server limit max_retries (batch_data @ data) (offset + limit) 0 (n + 1)
                 (events @ [PnlGet offset, PnlSleep 0.1])
      | PnlStop \<Rightarrow> Some (batch_data, events @ [PnlGet offset])
      | PnlRateLimit \<Rightarrow>
          if int (retry_count + 1) \<ge> max_retries
          then Some (batch_data,
                     events @ [PnlGet offset, PnlSleep (min (2 * 2 ^ retry_count) 60)])
          else pnl_loop server limit max_retries batch_data offset (retry_count + 1) (n + 1)
                 (events @ [PnlGet offset, PnlSleep (min (2 * 2 ^ retry_count) 60)])
      | PnlFatal \<Rightarrow> Some (batch_data, events @ [PnlGet offset])
      | PnlOther \<Rightarrow>
          if int (retry_count + 1) \<ge> max_retries
          then Some (batch_data, events @ [PnlGet offset])
          else pnl_loop server limit max_retries batch_data offset (retry_count + 1) (n + 1)
                 (events @ [PnlGet offset, PnlSleep (min (2 * 2 ^ (retry_count + 1)) 60)])
      | PnlExn \<Rightarrow>
          if int (retry_count + 1) \<ge> max_retries
          then Some (batch_data, events @ [PnlGet offset])
          else pnl_loop server limit max_retries batch_data offset (retry_count + 1) (n + 1)
                 (events @ [PnlGet offset, PnlSleep 2]))"

definition fetch_batch_pnl_run ::
  "(nat \<Rightarrow> int \<Rightarrow> 'a http_result) \<Rightarrow> int \<Rightarrow> int \<Rightarrow> ('a list \<times> pnl_event list) option" where
  "fetch_batch_pnl_run server limit max_retries = pnl_loop server limit max_retries [] 0 0 0 []"

text \<open>\<^verbatim>\<open>_fetch_batch_pnl\<close> returns \<^verbatim>\<open>batch_data\<close>.\<close>

definition fetch_batch_pnl ::
  "(nat \<Rightarrow> int \<Rightarrow> 'a http_result) \<Rightarrow> int \<Rightarrow> int \<Rightarrow> 'a list option" where
  "fetch_batch_pnl server limit max_retries =
     map_option fst (fetch_batch_pnl_run server limit max_retries)"

section \<open>Backfill of the batched PNL fetch (subgraph\_api/fetch\_subgraph.py)\<close>








text \<open>
  An exception a call ends with: the \<^verbatim>\<open>KeyError\<close> of a missing column, with the name of
  the column, or an exception of another class, with its name.
\<close>

datatype py_error = KeyError string | OtherError string



section \<open>Properties of position splitting\<close>

lemma split_loop_filter:
  "split_loop ps active_acc closed_acc =
     (active_acc @ filter (\<lambda>p. balance_str p \<noteq> JStr ''0'') ps,
      closed_acc @ filter (\<lambda>p. balance_str p = JStr ''0'') ps)"
  by (induction ps arbitrary: active_acc closed_acc) simp_all

lemma split_positions_filter:
  "split_positions ps =
     (filter (\<lambda>p. balance_str p \<noteq> JStr ''0'') ps,
      filter (\<lambda>p. balance_str p = JStr ''0'') ps)"
  by (simp add: split_positions_def split_loop_filter)

lemma mset_two_filters:
  "mset (filter (\<lambda>x. \<not> P x) xs) + mset (filter P xs) = mset xs"
  by (induction xs) simp_all

text \<open>
  Claim C10. For every input list, \<^verbatim>\<open>split_positions\<close> returns a partition of it:
  the two outputs together hold every input position exactly as often as the input does
  (nothing dropped, nothing duplicated), no position is in both outputs, each output keeps
  the relative input order (it is a subsequence of the input), and a position without a
  balance field is classified as closed.
\<close>

theorem split_positions_partition:
  "(case split_positions ps of (active_ps, closed_ps) \<Rightarrow>
      mset active_ps + mset closed_ps = mset ps
    \<and> set active_ps \<inter> set closed_ps = {}
    \<and> subseq active_ps ps \<and> subseq closed_ps ps
    \<and> (\<forall>p \<in> set ps. (p \<in> set closed_ps) = (balance_str p = JStr ''0''))
    \<and> (\<forall>p \<in> set ps. (p \<in> set active_ps) = (balance_str p \<noteq> JStr ''0''))
    \<and> (\<forall>p \<in> set ps. p ''balance'' = None \<longrightarrow> p \<in> set closed_ps \<and> p \<notin> set active_ps))"
proof -
  have m: "mset (filter (\<lambda>p. balance_str p \<noteq> JStr ''0'') ps)
         + mset (filter (\<lambda>p. balance_str p = JStr ''0'') ps) = mset ps"
    using mset_two_filters [of "\<lambda>p. balance_str p = JStr ''0''" ps] by simp
  have a: "\<forall>p \<in> set ps. p ''balance'' = None \<longrightarrow> balance_str p = JStr ''0''"
    by (simp add: balance_str_def)
  show ?thesis
    unfolding split_positions_filter using m a by auto
qed

theorem split_positions_partition_witness:
  "split_positions
     [[''id'' \<mapsto> JStr ''a'', ''balance'' \<mapsto> JStr ''5''],
      [''id'' \<mapsto> JStr ''b''],
      [''id'' \<mapsto> JStr ''c'', ''balance'' \<mapsto> JStr ''0''],
      [''id'' \<mapsto> JStr ''d'', ''balance'' \<mapsto> JNum 0]]
   = ([[''id'' \<mapsto> JStr ''a'', ''balance'' \<mapsto> JStr ''5''],
       [''id'' \<mapsto> JStr ''d'', ''balance'' \<mapsto> JNum 0]],
      [[''id'' \<mapsto> JStr ''b''],
       [''id'' \<mapsto> JStr ''c'', ''balance'' \<mapsto> JStr ''0'']])
   \<and> [''id'' \<mapsto> JStr ''b''] \<in> set [[''id'' \<mapsto> JStr ''b''],
       [''id'' \<mapsto> JStr ''c'', ''balance'' \<mapsto> JStr ''0'']]"
  using split_positions_partition [of "[[''id'' \<mapsto> JStr ''a'', ''balance'' \<mapsto> JStr ''5''],
      [''id'' \<mapsto> JStr ''b''],
      [''id'' \<mapsto> JStr ''c'', ''balance'' \<mapsto> JStr ''0''],
      [''id'' \<mapsto> JStr ''d'', ''balance'' \<mapsto> JNum 0]]"]
  by (simp add: split_positions_def balance_str_def)

section \<open>Properties of the reference price selection\<close>

lemma valid_entries_loop_filter:
  "valid_entries_loop lo hi h acc = acc @ filter (\<lambda>e. lo \<le> entry_ts e \<and> entry_ts e \<le> hi) h"
  by (induction h arbitrary: acc) simp_all

lemma sort_key_head_least:
  assumes "sort_key f xs = y # ys"
  shows "y \<in> set xs \<and> (\<forall>x \<in> set xs. f y \<le> f x)"
proof -
  have s: "sorted (map f (y # ys))"
    using sorted_sort_key [of f xs] assms by simp
  have e: "set (y # ys) = set xs"
    using set_sort [of f xs] assms by simp
  from s have "\<forall>x \<in> set ys. f y \<le> f x" by simp
  with e show ?thesis by auto
qed

text \<open>
  Claim C4. Writing \<open>min_ts = match_ts - max_hours_before * 3600\<close>: whenever
  \<^verbatim>\<open>extract_match_start_price\<close> returns an entry, that entry belongs to the history,
  its timestamp lies in \<open>[min_ts, match_ts]\<close> (so never strictly after match start), and no
  entry of the history inside the window has a greater timestamp; it returns \<open>None\<close>
  exactly when the price history is missing, has no history list, or has no entry in the
  window (which covers the empty history). A missing timestamp counts as 0, as the code's
  \<^verbatim>\<open>entry.get("t", 0)\<close> says.
\<close>

theorem extract_match_start_price_latest_in_window:
  "(\<forall>e. extract_match_start_price price_history match_ts max_hours_before = Some e \<longrightarrow>
        (\<exists>history. price_history = Some (Some history) \<and> e \<in> set history
           \<and> match_ts - max_hours_before * 3600 \<le> entry_ts e \<and> entry_ts e \<le> match_ts
           \<and> (\<forall>e' \<in> set history.
                 match_ts - max_hours_before * 3600 \<le> entry_ts e' \<and> entry_ts e' \<le> match_ts
                 \<longrightarrow> entry_ts e' \<le> entry_ts e)))
   \<and> ((extract_match_start_price price_history match_ts max_hours_before = None) =
        (price_history = None \<or> price_history = Some None
         \<or> (\<exists>history. price_history = Some (Some history)
               \<and> \<not> (\<exists>e \<in> set history.
                       match_ts - max_hours_before * 3600 \<le> entry_ts e \<and> entry_ts e \<le> match_ts))))"
proof (cases price_history)
  case None
  then show ?thesis by (simp add: extract_match_start_price_def)
next
  case (Some d)
  show ?thesis
  proof (cases d)
    case None
    with Some show ?thesis by (simp add: extract_match_start_price_def)
  next
    case (Some history)
    define lo where "lo = match_ts - max_hours_before * 3600"
    define v where "v = filter (\<lambda>e. lo \<le> entry_ts e \<and> entry_ts e \<le> match_ts) history"
    have ph: "price_history = Some (Some history)"
      using \<open>price_history = Some d\<close> Some by simp
    have vempty: "(v = []) = (\<not> (\<exists>e \<in> set history. lo \<le> entry_ts e \<and> entry_ts e \<le> match_ts))"
      by (auto simp: v_def filter_empty_conv)
    show ?thesis
    proof (cases "v = []")
      case True
      then have "extract_match_start_price price_history match_ts max_hours_before = None"
        by (simp add: ph extract_match_start_price_def valid_entries_loop_filter Let_def
            v_def lo_def)
      with True vempty show ?thesis by (simp add: ph lo_def)
    next
      case False
      then have ne: "sort_key (\<lambda>x. - entry_ts x) v \<noteq> []"
        using length_sort [of "\<lambda>x. - entry_ts x" v] by (metis length_0_conv)
      then obtain y ys where srt: "sort_key (\<lambda>x. - entry_ts x) v = y # ys"
        by (cases "sort_key (\<lambda>x. - entry_ts x) v") auto
      from False have hne: "history \<noteq> []" by (auto simp: v_def)
      have res: "extract_match_start_price price_history match_ts max_hours_before = Some y"
        using False hne srt
        by (simp add: ph extract_match_start_price_def valid_entries_loop_filter Let_def
            v_def lo_def)
      have least: "y \<in> set v \<and> (\<forall>x \<in> set v. - entry_ts y \<le> - entry_ts x)"
        using sort_key_head_least [OF srt] .
      then have yin: "y \<in> set history \<and> lo \<le> entry_ts y \<and> entry_ts y \<le> match_ts"
        by (simp add: v_def)
      have ymax: "\<forall>e' \<in> set history. lo \<le> entry_ts e' \<and> entry_ts e' \<le> match_ts
                    \<longrightarrow> entry_ts e' \<le> entry_ts y"
        using least by (auto simp: v_def)
      from res yin ymax False vempty show ?thesis
        by (auto simp: ph lo_def)
    qed
  qed
qed

theorem extract_match_start_price_latest_in_window_witness:
  "extract_match_start_price
     (Some (Some [\<lparr>entry_t = Some 1000, entry_p = Some 0.5\<rparr>,
                  \<lparr>entry_t = Some 9000, entry_p = Some 0.6\<rparr>,
                  \<lparr>entry_t = Some 10001, entry_p = Some 0.9\<rparr>,
                  \<lparr>entry_t = Some 8000, entry_p = Some 0.7\<rparr>])) 10000 1
     = Some \<lparr>entry_t = Some 9000, entry_p = Some 0.6\<rparr>
   \<and> entry_ts \<lparr>entry_t = Some 9000, entry_p = Some 0.6\<rparr> \<le> 10000
   \<and> entry_ts \<lparr>entry_t = Some 8000, entry_p = Some 0.7\<rparr>
       \<le> entry_ts \<lparr>entry_t = Some 9000, entry_p = Some 0.6\<rparr>"
  using extract_match_start_price_latest_in_window
    [of "Some (Some [\<lparr>entry_t = Some 1000, entry_p = Some 0.5\<rparr>,
                  \<lparr>entry_t = Some 9000, entry_p = Some 0.6\<rparr>,
                  \<lparr>entry_t = Some 10001, entry_p = Some 0.9\<rparr>,
                  \<lparr>entry_t = Some 8000, entry_p = Some 0.7\<rparr>])" 10000 1]
  by (simp add: extract_match_start_price_def entry_ts_def)

section \<open>Properties of the gated market fetcher\<close>

subsection \<open>Shape of a page call\<close>

lemma page_loop_plain:
  "set (fst (page_loop http max_retries k)) \<subseteq> insert Get (range Sleep)"
proof (induction http max_retries k rule: page_loop.induct)
  case (1 http max_retries k)
  show ?case
    apply (subst page_loop.simps)
    using 1
    apply (auto split: http_result.splits body.splits option.splits prod.splits if_splits)
    done
qed

lemma page_events_shape:
  "\<exists>b. fst (fetch_trades_for_single_market_page http max_retries) = Acquire # b @ [Release]
       \<and> Acquire \<notin> set b \<and> Release \<notin> set b"
proof -
  obtain evs res where p: "page_loop http max_retries 0 = (evs, res)"
    by (cases "page_loop http max_retries 0")
  have "set evs \<subseteq> insert Get (range Sleep)"
    using page_loop_plain [of http max_retries 0] p by simp
  then have "Acquire \<notin> set evs \<and> Release \<notin> set evs" by auto
  with p show ?thesis
    by (simp add: fetch_trades_for_single_market_page_def)
qed

lemma count_update:
  "i < length ts \<Longrightarrow>
     length (filter P (ts[i := x])) + (if P (ts ! i) then 1 else 0)
       = length (filter P ts) + (if P x then 1 else 0)"
proof (induction ts arbitrary: i)
  case Nil
  then show ?case by simp
next
  case (Cons t ts)
  then show ?case by (cases i) auto
qed

lemma all_update:
  "\<forall>t \<in> set ts. Q t \<Longrightarrow> Q x \<Longrightarrow> \<forall>t \<in> set (ts[i := x]). Q t"
  using set_update_subset_insert [of ts i x] by auto

lemma thread_ok_after_acquire:
  assumes "thread_ok (Running (Acquire # evs))"
  shows "\<exists>b. evs = b @ [Release] \<and> Acquire \<notin> set b \<and> Release \<notin> set b"
proof -
  from assms obtain b where b: "Acquire \<notin> set b" "Release \<notin> set b"
      "Acquire # evs = Acquire # b @ [Release] \<or> Acquire # evs = b @ [Release]"
    by (auto simp: thread_ok_def)
  from b(3) show ?thesis
  proof
    assume "Acquire # evs = Acquire # b @ [Release]"
    with b show ?thesis by auto
  next
    assume e: "Acquire # evs = b @ [Release]"
    show ?thesis
    proof (cases b)
      case Nil
      with e show ?thesis by simp
    next
      case (Cons x xs)
      with e b(1) show ?thesis by simp
    qed
  qed
qed

lemma thread_ok_at_release:
  assumes "thread_ok (Running (Release # evs))"
  shows "evs = []"
proof -
  from assms obtain b where b: "Acquire \<notin> set b" "Release \<notin> set b"
      "Release # evs = Acquire # b @ [Release] \<or> Release # evs = b @ [Release]"
    by (auto simp: thread_ok_def)
  from b(3) show ?thesis
  proof
    assume "Release # evs = Acquire # b @ [Release]"
    then show ?thesis by simp
  next
    assume e: "Release # evs = b @ [Release]"
    show ?thesis
    proof (cases b)
      case Nil
      with e show ?thesis by simp
    next
      case (Cons x xs)
      with e b(2) show ?thesis by simp
    qed
  qed
qed

lemma thread_ok_inside:
  assumes "thread_ok (Running (e # evs))" and "e \<noteq> Acquire" and "e \<noteq> Release"
  shows "\<exists>b. evs = b @ [Release] \<and> Acquire \<notin> set b \<and> Release \<notin> set b"
proof -
  from assms(1) obtain b where b: "Acquire \<notin> set b" "Release \<notin> set b"
      "e # evs = Acquire # b @ [Release] \<or> e # evs = b @ [Release]"
    by (auto simp: thread_ok_def)
  from b(3) show ?thesis
  proof
    assume "e # evs = Acquire # b @ [Release]"
    with assms(2) show ?thesis by simp
  next
    assume e: "e # evs = b @ [Release]"
    show ?thesis
    proof (cases b)
      case Nil
      with e assms(3) show ?thesis by simp
    next
      case (Cons x xs)
      with e b show ?thesis by auto
    qed
  qed
qed

lemma step_gate_inv:
  assumes "step s s'" and "gate_inv cap s"
  shows "gate_inv cap s'"
  using assms
proof (induction rule: step.induct)
  case (start i ts permits http max_retries)
  obtain b where b: "fst (fetch_trades_for_single_market_page http max_retries) = Acquire # b @ [Release]"
      "Acquire \<notin> set b" "Release \<notin> set b"
    using page_events_shape [of http max_retries] by blast
  let ?new = "Running (fst (fetch_trades_for_single_market_page http max_retries))"
  have nh: "\<not> holds_permit ?new" by (simp add: holds_permit_def b)
  have ok: "thread_ok ?new" using b by (auto simp: thread_ok_def)
  have oh: "\<not> holds_permit (ts ! i)" using start by (simp add: holds_permit_def)
  have "permits_held (ts[i := ?new]) = permits_held ts"
    using count_update [of i ts holds_permit ?new] start(1) nh oh by (simp add: permits_held_def)
  moreover have "\<forall>t \<in> set (ts[i := ?new]). thread_ok t"
    using all_update [of ts thread_ok ?new i] start(3) ok by (simp add: gate_inv_def)
  ultimately show ?case using start(3) by (simp add: gate_inv_def)
next
  case (acquire i ts evs permits)
  have tok: "thread_ok (Running (Acquire # evs))"
    using acquire by (auto simp: gate_inv_def dest: nth_mem)
  then obtain b where b: "evs = b @ [Release]" "Acquire \<notin> set b" "Release \<notin> set b"
    using thread_ok_after_acquire by blast
  have nh: "holds_permit (Running evs)" using b by (simp add: holds_permit_def)
  have ok: "thread_ok (Running evs)" using b by (auto simp: thread_ok_def)
  have oh: "\<not> holds_permit (ts ! i)" using acquire by (simp add: holds_permit_def)
  have "permits_held (ts[i := Running evs]) = permits_held ts + 1"
    using count_update [of i ts holds_permit "Running evs"] acquire(1) nh oh
    by (simp add: permits_held_def)
  moreover have "\<forall>t \<in> set (ts[i := Running evs]). thread_ok t"
    using all_update [of ts thread_ok "Running evs" i] acquire(4) ok by (simp add: gate_inv_def)
  ultimately show ?case using acquire(4) acquire(3) by (simp add: gate_inv_def)
next
  case (release i ts evs permits)
  have tok: "thread_ok (Running (Release # evs))"
    using release by (auto simp: gate_inv_def dest: nth_mem)
  then have e: "evs = []" using thread_ok_at_release by blast
  have nh: "\<not> holds_permit (Running evs)" using e by (simp add: holds_permit_def)
  have ok: "thread_ok (Running evs)" using e by (simp add: thread_ok_def)
  have oh: "holds_permit (ts ! i)" using release e by (simp add: holds_permit_def)
  have "permits_held (ts[i := Running evs]) + 1 = permits_held ts"
    using count_update [of i ts holds_permit "Running evs"] release(1) nh oh
    by (simp add: permits_held_def)
  moreover have "\<forall>t \<in> set (ts[i := Running evs]). thread_ok t"
    using all_update [of ts thread_ok "Running evs" i] release(3) ok by (simp add: gate_inv_def)
  ultimately show ?case using release(3) by (simp add: gate_inv_def)
next
  case (get i ts evs permits)
  have tok: "thread_ok (Running (Get # evs))"
    using get by (auto simp: gate_inv_def dest: nth_mem)
  then obtain b where b: "evs = b @ [Release]" "Acquire \<notin> set b" "Release \<notin> set b"
    using thread_ok_inside [of Get evs] by auto
  have nh: "holds_permit (Running evs)" using b by (simp add: holds_permit_def)
  have ok: "thread_ok (Running evs)" using b by (auto simp: thread_ok_def)
  have oh: "holds_permit (ts ! i)" using get b by (simp add: holds_permit_def)
  have "permits_held (ts[i := Running evs]) = permits_held ts"
    using count_update [of i ts holds_permit "Running evs"] get(1) nh oh
    by (simp add: permits_held_def)
  moreover have "\<forall>t \<in> set (ts[i := Running evs]). thread_ok t"
    using all_update [of ts thread_ok "Running evs" i] get(3) ok by (simp add: gate_inv_def)
  ultimately show ?case using get(3) by (simp add: gate_inv_def)
next
  case (sleep i ts d evs permits)
  have tok: "thread_ok (Running (Sleep d # evs))"
    using sleep by (auto simp: gate_inv_def dest: nth_mem)
  then obtain b where b: "evs = b @ [Release]" "Acquire \<notin> set b" "Release \<notin> set b"
    using thread_ok_inside [of "Sleep d" evs] by auto
  have nh: "holds_permit (Running evs)" using b by (simp add: holds_permit_def)
  have ok: "thread_ok (Running evs)" using b by (auto simp: thread_ok_def)
  have oh: "holds_permit (ts ! i)" using sleep b by (simp add: holds_permit_def)
  have "permits_held (ts[i := Running evs]) = permits_held ts"
    using count_update [of i ts holds_permit "Running evs"] sleep(1) nh oh
    by (simp add: permits_held_def)
  moreover have "\<forall>t \<in> set (ts[i := Running evs]). thread_ok t"
    using all_update [of ts thread_ok "Running evs" i] sleep(3) ok by (simp add: gate_inv_def)
  ultimately show ?case using sleep(3) by (simp add: gate_inv_def)
next
  case (leave i ts permits)
  have nh: "\<not> holds_permit Idle" by (simp add: holds_permit_def)
  have oh: "\<not> holds_permit (ts ! i)" using leave by (simp add: holds_permit_def)
  have "permits_held (ts[i := Idle]) = permits_held ts"
    using count_update [of i ts holds_permit Idle] leave(1) nh oh
    by (simp add: permits_held_def)
  moreover have "\<forall>t \<in> set (ts[i := Idle]). thread_ok t"
    using all_update [of ts thread_ok Idle i] leave(3) by (simp add: gate_inv_def thread_ok_def)
  ultimately show ?case using leave(3) by (simp add: gate_inv_def)
qed

lemma reachable_gate_inv:
  assumes "reachable cap n s"
  shows "gate_inv cap s"
proof -
  have init: "gate_inv cap (cap, replicate n Idle)"
    by (simp add: gate_inv_def permits_held_def holds_permit_def thread_ok_def)
  have "step\<^sup>*\<^sup>* (cap, replicate n Idle) s" using assms by (simp add: reachable_def)
  then show ?thesis
    by (induction rule: rtranclp_induct) (auto intro: init step_gate_inv)
qed

lemma in_flight_holds:
  assumes "thread_ok t" and "in_flight t"
  shows "holds_permit t"
proof -
  from assms(2) obtain evs where t: "t = Running (Get # evs)"
    by (cases t rule: in_flight.cases) auto
  with assms(1) obtain b where "evs = b @ [Release]" "Acquire \<notin> set b" "Release \<notin> set b"
    using thread_ok_inside [of Get evs] by auto
  with t show ?thesis by (simp add: holds_permit_def)
qed

lemma filter_length_mono:
  "\<forall>x \<in> set xs. P x \<longrightarrow> Q x \<Longrightarrow> length (filter P xs) \<le> length (filter Q xs)"
  by (induction xs) auto

lemma gate_inv_in_flight:
  assumes "gate_inv cap s"
  shows "in_flight_count s \<le> cap"
proof -
  have "length (filter in_flight (snd s)) \<le> length (filter holds_permit (snd s))"
    using assms by (intro filter_length_mono) (auto simp: gate_inv_def intro: in_flight_holds)
  with assms show ?thesis
    by (simp add: gate_inv_def in_flight_count_def permits_held_def)
qed

subsection \<open>The gate invariant\<close>

text \<open>
  Claim C2. Every call of \<^verbatim>\<open>fetch_trades_for_single_market_page\<close> performs exactly one
  \<^verbatim>\<open>acquire\<close>, before anything else, and exactly one \<^verbatim>\<open>release\<close>, as its last
  action, whatever the server answers and however the call ends (the actions are the same
  list whether the outcome is a success, a failure after the retries or a raised
  exception). Hence, in every state a run can reach from \<open>simultaneous_requests\<close> free
  permits and \<open>max_workers\<close> idle threads, the threads with an HTTP request in flight are
  at most \<open>simultaneous_requests\<close>, and free plus held permits equal the capacity.
\<close>

theorem gate_never_exceeded:
  "(\<forall>(http :: nat \<Rightarrow> jobj http_result) max_retries.
      \<exists>b. fst (fetch_trades_for_single_market_page http max_retries) = Acquire # b @ [Release]
          \<and> Acquire \<notin> set b \<and> Release \<notin> set b)
   \<and> (\<forall>s. reachable simultaneous_requests max_workers s \<longrightarrow>
          in_flight_count s \<le> simultaneous_requests
        \<and> fst s + permits_held (snd s) = simultaneous_requests)"
proof -
  have "in_flight_count s \<le> simultaneous_requests
        \<and> fst s + permits_held (snd s) = simultaneous_requests"
    if r: "reachable simultaneous_requests max_workers s" for s
  proof -
    have g: "gate_inv simultaneous_requests s" using reachable_gate_inv [OF r] .
    from g have "fst s + permits_held (snd s) = simultaneous_requests"
      by (simp add: gate_inv_def)
    with gate_inv_in_flight [OF g] show ?thesis by simp
  qed
  then show ?thesis using page_events_shape by blast
qed

theorem gate_never_exceeded_witness:
  "reachable 1 2 (0, [Running [Get, Release], Idle])
   \<and> in_flight_count (0, [Running [Get, Release], Idle]) = 1
   \<and> in_flight_count (0, [Running [Get, Release], Idle]) \<le> 1"
proof -
  let ?http = "\<lambda>k::nat. Response 200 (BodyList []) :: jobj http_result"
  have e: "fst (fetch_trades_for_single_market_page ?http 3) = [Acquire, Get, Release]"
    by (simp add: fetch_trades_for_single_market_page_def page_loop.simps)
  have s1: "step (1, [Idle, Idle]) (1, [Running [Acquire, Get, Release], Idle])"
    using step.start [of 0 "[Idle, Idle]" 1 ?http 3] e by simp
  have s2: "step (1, [Running [Acquire, Get, Release], Idle]) (0, [Running [Get, Release], Idle])"
    using step.acquire [of 0 "[Running [Acquire, Get, Release], Idle]" "[Get, Release]" 1] by simp
  have r: "reachable 1 2 (0, [Running [Get, Release], Idle])"
  proof -
    have "step\<^sup>*\<^sup>* (1, [Idle, Idle]) (0, [Running [Get, Release], Idle])"
      using s1 s2 by (meson rtranclp.rtrancl_into_rtrancl rtranclp.rtrancl_refl)
    moreover have "replicate 2 Idle = [Idle, Idle]" by (simp add: numeral_2_eq_2)
    ultimately show ?thesis by (simp add: reachable_def)
  qed
  have c: "in_flight_count (0, [Running [Get, Release], Idle]) = 1"
    by (simp add: in_flight_count_def)
  show ?thesis
    using gate_never_exceeded [of 1 2] r c by auto
qed

subsection \<open>The retry policy of a page call\<close>

lemma page_loop_retry:
  assumes "retryable (http k)" and "int k + 1 \<le> max_retries"
  shows "page_loop http max_retries k =
           (Get # Sleep (retry_delay (http k) k) # fst (page_loop http max_retries (k + 1)),
            snd (page_loop http max_retries (k + 1)))"
  using assms
  by (subst page_loop.simps)
     (auto simp: retryable_def retry_delay_def split: http_result.splits prod.splits)

lemma page_loop_stop:
  assumes "\<not> retryable (http k)" and "int k \<le> max_retries"
  shows "page_loop http max_retries k = ([Get], final_outcome (http k))"
  using assms
  by (subst page_loop.simps)
     (auto simp: retryable_def final_outcome_def split: http_result.splits body.splits option.splits)

lemma page_loop_exhausted:
  assumes "retryable (http k)" and "int k = max_retries"
  shows "page_loop http max_retries k = ([Get], Returned [] False)"
  using assms
  by (subst page_loop.simps)
     (auto simp: retryable_def split: http_result.splits)

lemma page_loop_prefix:
  assumes "\<forall>i. j \<le> i \<and> i < j + n \<longrightarrow> retryable (http i)" and "int (j + n) \<le> max_retries"
  shows "page_loop http max_retries j =
           (concat (map (\<lambda>i. [Get, Sleep (retry_delay (http i) i)]) [j..<j + n])
              @ fst (page_loop http max_retries (j + n)),
            snd (page_loop http max_retries (j + n)))"
  using assms
proof (induction n arbitrary: j)
  case 0
  then show ?case by simp
next
  case (Suc n)
  have r: "retryable (http j)" using Suc.prems(1) by simp
  have b: "int j + 1 \<le> max_retries" using Suc.prems(2) by simp
  have ih: "page_loop http max_retries (Suc j) =
           (concat (map (\<lambda>i. [Get, Sleep (retry_delay (http i) i)]) [Suc j..<Suc j + n])
              @ fst (page_loop http max_retries (Suc j + n)),
            snd (page_loop http max_retries (Suc j + n)))"
    using Suc.IH [of "Suc j"] Suc.prems by simp
  have u: "[j..<j + Suc n] = j # [Suc j..<Suc j + n]"
    by (simp add: upt_conv_Cons)
  show ?case
    using page_loop_retry [of http j max_retries] r b ih u by simp
qed

text \<open>
  Claim C6, as the code has it. Within one page call, while the results are retryable
  (status 429 or 408, or a \<^verbatim>\<open>RequestException\<close>) and the retry budget lasts, each of
  them is followed by a sleep (\<open>min (10 + 2 ^ retry) 30\<close> seconds after a 429 or 408, 5
  seconds after a \<^verbatim>\<open>RequestException\<close>) and a new request, with no release in between:
  the gate is taken once at the start and given back once at the end. The first result
  that is not retryable ends the call with one request and no sleep more: a status other
  than 200, 429 and 408 returns the failure \<open>([], False)\<close> without raising. A retryable
  result on the last request of the budget returns \<open>([], False)\<close> as well.
\<close>

theorem page_retry_policy:
  assumes "\<forall>i<k. retryable (http i)" and "int k \<le> max_retries"
  shows "(\<not> retryable (http k) \<longrightarrow>
            fetch_trades_for_single_market_page http max_retries =
              (Acquire # retry_rounds http k @ [Get, Release], final_outcome (http k)))
       \<and> (retryable (http k) \<and> int k = max_retries \<longrightarrow>
            fetch_trades_for_single_market_page http max_retries =
              (Acquire # retry_rounds http k @ [Get, Release], Returned [] False))
       \<and> (\<forall>status_code data. http k = Response status_code data
              \<and> status_code \<noteq> 200 \<and> status_code \<noteq> 429 \<and> status_code \<noteq> 408 \<longrightarrow>
            fetch_trades_for_single_market_page http max_retries =
              (Acquire # retry_rounds http k @ [Get, Release], Returned [] False))"
proof -
  have p: "page_loop http max_retries 0 =
             (retry_rounds http k @ fst (page_loop http max_retries k),
              snd (page_loop http max_retries k))"
    using page_loop_prefix [of 0 k http max_retries] assms by (simp add: retry_rounds_def)
  have a: "\<not> retryable (http k) \<longrightarrow>
            fetch_trades_for_single_market_page http max_retries =
              (Acquire # retry_rounds http k @ [Get, Release], final_outcome (http k))"
    using p page_loop_stop [of http k max_retries] assms(2)
    by (auto simp: fetch_trades_for_single_market_page_def)
  have b: "retryable (http k) \<and> int k = max_retries \<longrightarrow>
            fetch_trades_for_single_market_page http max_retries =
              (Acquire # retry_rounds http k @ [Get, Release], Returned [] False)"
    using p page_loop_exhausted [of http k max_retries]
    by (auto simp: fetch_trades_for_single_market_page_def)
  have c: "\<forall>status_code data. http k = Response status_code data
              \<and> status_code \<noteq> 200 \<and> status_code \<noteq> 429 \<and> status_code \<noteq> 408 \<longrightarrow>
            fetch_trades_for_single_market_page http max_retries =
              (Acquire # retry_rounds http k @ [Get, Release], Returned [] False)"
    using a by (auto simp: retryable_def final_outcome_def)
  from a b c show ?thesis by blast
qed

theorem page_retry_policy_witness:
  "fetch_trades_for_single_market_page
     (\<lambda>k. if k = 0 then Response 429 BodyInvalid
           else if k = 1 then RequestException
           else Response 500 (BodyInvalid :: nat body)) 10
   = ([Acquire, Get, Sleep 12, Get, Sleep 5, Get, Release], Returned [] False)"
proof -
  let ?http = "\<lambda>k::nat. if k = 0 then Response 429 BodyInvalid
           else if k = 1 then RequestException
           else Response 500 (BodyInvalid :: nat body)"
  have h: "\<forall>i<2. retryable (?http i)"
    by (simp add: retryable_def)
  have r: "retry_rounds ?http 2 = [Get, Sleep 12, Get, Sleep 5]"
    by (simp add: retry_rounds_def retry_delay_def numeral_2_eq_2)
  have n: "\<not> retryable (?http 2)"
    by (simp add: retryable_def)
  show ?thesis
    using page_retry_policy [of 2 ?http 10] h r n
    by (simp add: final_outcome_def)
qed

text \<open>
  The claim as written says that a transport exception fails the page at once. Here the
  first request raises \<^verbatim>\<open>RequestException\<close>; the call sleeps 5 seconds, asks again and
  returns the trades of the second answer with success.
\<close>

theorem transport_exception_is_retried:
  "fetch_trades_for_single_market_page
     (\<lambda>k. if k = 0 then RequestException else Response 200 (BodyList [1::nat])) 10
   = ([Acquire, Get, Sleep 5, Get, Release], Returned [1] True)"
  by (simp add: fetch_trades_for_single_market_page_def page_loop.simps)

subsection \<open>The two-phase orchestration\<close>

lemma process_loop_mset:
  "mset (fst (process_loop result order acc failed))
     = mset acc + (\<Sum>m \<in># mset order. mset (collected result m))
   \<and> mset (snd (process_loop result order acc failed))
     = mset failed + filter_mset (failed_in result) (mset order)"
proof (induction order arbitrary: acc failed)
  case Nil
  then show ?case by simp
next
  case (Cons m order)
  show ?case
  proof (cases "result m")
    case Crashed
    then show ?thesis using Cons.IH by (simp add: collected_def failed_in_def)
  next
    case (Fetched trades success)
    then show ?thesis using Cons.IH by (simp add: collected_def failed_in_def)
  qed
qed

lemma run_loop_mset:
  assumes "mset (completion ms) = mset ms"
  shows "mset (fst (run_market_processing_loop result completion ms))
           = (\<Sum>m \<in># mset ms. mset (collected result m))"
    and "mset (snd (run_market_processing_loop result completion ms))
           = filter_mset (failed_in result) (mset ms)"
  using process_loop_mset [of result "completion ms" "[]" "[]"] assms
  by (simp_all add: run_market_processing_loop_def)

lemma sum_mset_split:
  "(\<Sum>m \<in># M. (if P m then g m else f m))
     = (\<Sum>m \<in># M. (if P m then {#} else f m)) + (\<Sum>m \<in># filter_mset P M. g m)"
  by (induction M) (simp_all add: ac_simps)

lemma sum_mset_not_failed:
  "(\<Sum>m \<in># M. mset (collected result m))
     = (\<Sum>m \<in># M. (if failed_in result m then {#} else mset (collected result m)))"
proof -
  have "\<And>m. failed_in result m \<Longrightarrow> collected result m = []"
    by (auto simp: failed_in_def collected_def split: market_result.splits)
  then have "\<And>m. mset (collected result m)
               = (if failed_in result m then {#} else mset (collected result m))"
    by simp
  then show ?thesis by presburger
qed

text \<open>
  Claim C5, as the code has it. When the completion orders are permutations of the
  submitted markets: every unique condition id is submitted once in the first pass, and
  exactly the markets that failed the first pass are submitted once more, in one second
  pass; the returned data frame holds, once each, the tagged trades of the markets that
  succeeded in the first pass and of those that failed it and succeeded in the second; the
  markets that failed both passes are the local \<^verbatim>\<open>final_failed_markets\<close> and, when
  there are any, are printed one by one. They are not part of the returned value.
\<close>

theorem fetch_all_trades_parallel_two_phase:
  assumes "\<forall>p ms. mset (completion p ms) = mset ms"
  shows "(let ids = dropna_unique column;
              r = fetch_all_trades_parallel_run result completion column in
          distinct ids
        \<and> set ids = {c. Some c \<in> set column}
        \<and> mset (submitted r)
            = image_mset (Pair 1) (mset ids)
              + image_mset (Pair 2) (filter_mset (failed_in (result 1)) (mset ids))
        \<and> mset (fetch_all_trades_parallel result completion column)
            = (\<Sum>m \<in># mset ids.
                 if failed_in (result 1) m then mset (collected (result 2) m)
                 else mset (collected (result 1) m))
        \<and> mset (final_failed_markets r)
            = filter_mset (\<lambda>m. failed_in (result 1) m \<and> failed_in (result 2) m) (mset ids)
        \<and> (if final_failed_markets r = [] then set (printed r) \<subseteq> {Retrying (length (filter (failed_in (result 1)) ids)), AllRecovered, NoFailures}
            else printed r = Retrying (length (filter (failed_in (result 1)) ids))
                   # PermanentlyFailed (length (final_failed_markets r))
                   # map FailedMarket (final_failed_markets r)))"
proof -
  define ids where "ids = dropna_unique column"
  define r where "r = fetch_all_trades_parallel_run result completion column"
  obtain t1 f1 where p1: "run_market_processing_loop (result 1) (completion 1) ids = (t1, f1)"
    by (cases "run_market_processing_loop (result 1) (completion 1) ids")
  obtain t2 f2 where p2: "run_market_processing_loop (result 2) (completion 2) f1 = (t2, f2)"
    by (cases "run_market_processing_loop (result 2) (completion 2) f1")
  have c1: "mset (completion 1 ids) = mset ids" and c2: "mset (completion 2 f1) = mset f1"
    using assms by simp_all
  have mt1: "mset t1 = (\<Sum>m \<in># mset ids. mset (collected (result 1) m))"
    and mf1: "mset f1 = filter_mset (failed_in (result 1)) (mset ids)"
    using run_loop_mset [of "completion 1" ids "result 1"] c1 p1 by simp_all
  have mt2: "mset t2 = (\<Sum>m \<in># mset f1. mset (collected (result 2) m))"
    and mf2: "mset f2 = filter_mset (failed_in (result 2)) (mset f1)"
    using run_loop_mset [of "completion 2" f1 "result 2"] c2 p2 by simp_all
  have d: "distinct ids" by (simp add: ids_def dropna_unique_def)
  have s: "set ids = {c. Some c \<in> set column}"
    by (force simp: ids_def dropna_unique_def)
  have lf1: "length f1 = length (filter (failed_in (result 1)) ids)"
    using mf1 by (metis mset_filter size_mset)
  have total: "mset t1 + mset t2
        = (\<Sum>m \<in># mset ids.
                 if failed_in (result 1) m then mset (collected (result 2) m)
                 else mset (collected (result 1) m))"
    using sum_mset_split [of "failed_in (result 1)" "\<lambda>m. mset (collected (result 2) m)"
        "\<lambda>m. mset (collected (result 1) m)" "mset ids"]
      sum_mset_not_failed [of "result 1" "mset ids"] mt1 mt2 mf1
    by simp
  have ff: "mset f2 = filter_mset (\<lambda>m. failed_in (result 1) m \<and> failed_in (result 2) m) (mset ids)"
    using mf2 mf1 by (simp add: filter_filter_mset conj_commute)
  show ?thesis
  proof (cases "f1 = []")
    case True
    have rr: "r = \<lparr>submitted = map (Pair 1) ids, final_failed_markets = [],
                   printed = [NoFailures], returned = t1\<rparr>"
      using True p1 by (simp add: r_def fetch_all_trades_parallel_run_def ids_def)
    have e1: "filter_mset (failed_in (result 1)) (mset ids) = {#}"
      using mf1 True by simp
    have e2: "mset t2 = {#}" using mt2 True by simp
    have e3: "filter_mset (\<lambda>m. failed_in (result 1) m \<and> failed_in (result 2) m) (mset ids) = {#}"
      using ff mf2 True by simp
    show ?thesis
      unfolding Let_def fetch_all_trades_parallel_def ids_def [symmetric] r_def [symmetric]
      using d s rr e1 e3 total e2 by simp
  next
    case False
    have rr: "r = \<lparr>submitted = map (Pair 1) ids @ map (Pair 2) f1,
                   final_failed_markets = f2,
                   printed = Retrying (length f1) #
                    (if f2 \<noteq> []
                     then PermanentlyFailed (length f2) # map FailedMarket f2
                     else [AllRecovered]),
                   returned = t1 @ t2\<rparr>"
      using False p1 p2 by (simp add: r_def fetch_all_trades_parallel_run_def ids_def)
    have sub: "mset (submitted r) = image_mset (Pair 1) (mset ids)
              + image_mset (Pair 2) (filter_mset (failed_in (result 1)) (mset ids))"
      using rr mf1 by simp
    show ?thesis
      unfolding Let_def fetch_all_trades_parallel_def ids_def [symmetric] r_def [symmetric]
      using d s sub rr total ff lf1 by simp
  qed
qed

theorem fetch_all_trades_parallel_two_phase_witness:
  "fetch_all_trades_parallel_run
     (\<lambda>p m. if p = 1 then (if m = ''a'' then Fetched [Map.empty] True else Fetched [] False)
             else Crashed)
     (\<lambda>p ms. rev ms)
     [Some ''a'', None, Some ''b'', Some ''a'']
   = \<lparr>submitted = [(1, ''a''), (1, ''b''), (2, ''b'')],
      final_failed_markets = [''b''],
      printed = [Retrying 1, PermanentlyFailed 1, FailedMarket ''b''],
      returned = [[''market_id_v3'' \<mapsto> JStr ''a'']]\<rparr>
   \<and> mset (final_failed_markets (fetch_all_trades_parallel_run
     (\<lambda>p m. if p = 1 then (if m = ''a'' then Fetched [Map.empty] True else Fetched [] False)
             else Crashed)
     (\<lambda>p ms. rev ms)
     [Some ''a'', None, Some ''b'', Some ''a''])) = {#''b''#}"
proof -
  have h: "\<forall>p ms. mset (rev ms :: string list) = mset ms" by simp
  show ?thesis
    using fetch_all_trades_parallel_two_phase
      [of "\<lambda>p ms. rev ms" "[Some ''a'', None, Some ''b'', Some ''a'']"
          "\<lambda>p m. if p = 1 then (if m = ''a'' then Fetched [Map.empty] True else Fetched [] False)
             else Crashed"] h
    by (simp add: fetch_all_trades_parallel_run_def run_market_processing_loop_def
        dropna_unique_def)
qed

text \<open>
  The claim as written has the list of the markets that still fail returned to the
  caller. In the first run below the only market fails both passes, in the second it
  succeeds with no trades: the local lists of permanently failed markets differ, and the
  value returned to the caller is the same.
\<close>

theorem failed_markets_not_returned:
  "fetch_all_trades_parallel (\<lambda>p m. Fetched [] False) (\<lambda>p ms. ms) [Some ''m1'']
     = fetch_all_trades_parallel (\<lambda>p m. Fetched [] True) (\<lambda>p ms. ms) [Some ''m1'']
   \<and> final_failed_markets
        (fetch_all_trades_parallel_run (\<lambda>p m. Fetched [] False) (\<lambda>p ms. ms) [Some ''m1''])
       = [''m1'']
   \<and> final_failed_markets
        (fetch_all_trades_parallel_run (\<lambda>p m. Fetched [] True) (\<lambda>p ms. ms) [Some ''m1''])
       = []"
  by (simp add: fetch_all_trades_parallel_def fetch_all_trades_parallel_run_def
      run_market_processing_loop_def dropna_unique_def)

section \<open>Properties of the CLV aggregation\<close>

text \<open>
  Claim C1, as the code has it. Take a group of trades sharing (condition id, token id)
  whose position has a defined closing price, and let the pre-start trades be those whose
  millisecond timestamp floor-divided by 1000 is strictly less than the position's start
  time. When the sizes of the pre-start trades do not add up to zero, the loop body stores
  \<open>avg_price = \<Sum>(size * price) / \<Sum>size\<close> over exactly the pre-start trades,
  \<open>price_clv = closing - avg_price\<close> and
  \<open>odds_clv = safe_divide 1 avg_price - safe_divide 1 closing\<close>, which is
  \<open>1 / avg_price - 1 / closing\<close> when neither is zero and \<^verbatim>\<open>safe_divide\<close> divides on
  non-zero denominators. When the sizes add up to zero (in particular when there is no
  pre-start trade) the group gets the reason \<^verbatim>\<open>sem_trades_pre_market\<close> and no result.
\<close>

theorem clv_group_volume_weighted:
  assumes "find (\<lambda>row. pos_conditionId row = condition_id \<and> pos_asset row = asset) clv_df
             = Some lookup_row"
    and "match_start_price lookup_row = Some closing"
    and "pre = filter (\<lambda>trade. tr_timestamp trade div 1000 < start_time_unix lookup_row)
                 (group_df trades_df condition_id asset)"
    and "avg = (\<Sum>trade \<leftarrow> pre. tr_size trade * tr_price trade) / (\<Sum>trade \<leftarrow> pre. tr_size trade)"
  shows "((\<Sum>trade \<leftarrow> pre. tr_size trade) \<noteq> 0 \<longrightarrow>
            clv_group safe_divide clv_df condition_id asset (group_df trades_df condition_id asset)
              = Clv \<lparr>price_clv = closing - avg,
                      odds_clv = safe_divide 1 avg - safe_divide 1 closing,
                      avg_price = avg, closing_price = closing\<rparr>)
       \<and> ((\<Sum>trade \<leftarrow> pre. tr_size trade) \<noteq> 0 \<and> avg \<noteq> 0 \<and> closing \<noteq> 0
            \<and> (\<forall>a b. b \<noteq> 0 \<longrightarrow> safe_divide a b = a / b) \<longrightarrow>
            clv_group safe_divide clv_df condition_id asset (group_df trades_df condition_id asset)
              = Clv \<lparr>price_clv = closing - avg,
                      odds_clv = 1 / avg - 1 / closing,
                      avg_price = avg, closing_price = closing\<rparr>)
       \<and> ((\<Sum>trade \<leftarrow> pre. tr_size trade) = 0 \<longrightarrow>
            clv_group safe_divide clv_df condition_id asset (group_df trades_df condition_id asset)
              = Reason ''sem_trades_pre_market'')"
  using assms by (simp add: clv_group_def timestamp_seconds_def Let_def)

theorem clv_group_volume_weighted_witness:
  "clv_group (\<lambda>a b. if b = 0 then 0 else a / b)
     [\<lparr>pos_conditionId = ''c'', pos_asset = ''a'', start_time_unix = 30,
       match_start_price = Some 0.55\<rparr>] ''c'' ''a''
     (group_df
        [\<lparr>tr_conditionId = ''c'', tr_asset = ''a'', tr_price = 0.40, tr_size = 100,
          tr_timestamp = 10\<rparr>,
         \<lparr>tr_conditionId = ''c'', tr_asset = ''a'', tr_price = 0.60, tr_size = 50,
          tr_timestamp = 20\<rparr>] ''c'' ''a'')
   = Clv \<lparr>price_clv = 1 / 12, odds_clv = 25 / 77, avg_price = 7 / 15, closing_price = 0.55\<rparr>
   \<and> \<bar>7 / 15 - 0.4667\<bar> < (0.0001 :: real)
   \<and> \<bar>1 / 12 - 0.0833\<bar> < (0.0001 :: real)
   \<and> \<bar>25 / 77 - 0.325\<bar> < (0.001 :: real)"
proof -
  let ?row = "\<lparr>pos_conditionId = ''c'', pos_asset = ''a'', start_time_unix = 30,
       match_start_price = Some 0.55\<rparr>"
  let ?t1 = "\<lparr>tr_conditionId = ''c'', tr_asset = ''a'', tr_price = 0.40, tr_size = 100,
          tr_timestamp = 10\<rparr>"
  let ?t2 = "\<lparr>tr_conditionId = ''c'', tr_asset = ''a'', tr_price = 0.60, tr_size = 50,
          tr_timestamp = 20\<rparr>"
  have g: "group_df [?t1, ?t2] ''c'' ''a'' = [?t1, ?t2]"
    by (simp add: group_df_def)
  show ?thesis
    using clv_group_volume_weighted
      [where condition_id = "''c''" and asset = "''a''" and clv_df = "[?row]"
         and lookup_row = ?row and closing = "0.55" and pre = "[?t1, ?t2]"
         and trades_df = "[?t1, ?t2]" and avg = "7 / 15"
         and safe_divide = "\<lambda>a b. if b = 0 then 0 else a / b"] g
    by simp
qed

text \<open>
  The claim as written asks only for one trade before the start. This group has one, of
  size 0, and a defined closing price: it gets a reason and no result.
\<close>

theorem pre_start_trade_of_size_zero_skipped:
  "filter (\<lambda>trade. tr_timestamp trade div 1000 < 30)
     (group_df [\<lparr>tr_conditionId = ''c'', tr_asset = ''a'', tr_price = 0.40, tr_size = 0,
                 tr_timestamp = 10\<rparr>] ''c'' ''a'') \<noteq> []
   \<and> clv_group (\<lambda>a b. if b = 0 then 0 else a / b)
        [\<lparr>pos_conditionId = ''c'', pos_asset = ''a'', start_time_unix = 30,
          match_start_price = Some 0.55\<rparr>] ''c'' ''a''
        (group_df [\<lparr>tr_conditionId = ''c'', tr_asset = ''a'', tr_price = 0.40, tr_size = 0,
                    tr_timestamp = 10\<rparr>] ''c'' ''a'')
      = Reason ''sem_trades_pre_market''"
  by (simp add: clv_group_def group_df_def timestamp_seconds_def)

section \<open>Properties of the offset pager\<close>

lemma inner_loop_page_nonempty:
  "inner_loop server current_offset max_limit n retry_count = (Page data, n') \<Longrightarrow> data \<noteq> []"
proof (induction server current_offset max_limit n retry_count rule: inner_loop.induct)
  case (1 server current_offset max_limit n retry_count)
  from "1.prems" show ?case
    apply (subst (asm) inner_loop.simps)
    using "1.IH"
    apply (auto split: if_splits page_result.splits)
    done
qed

lemma trim_excess_bounded:
  assumes "int (length all_data) \<le> current_offset - start_offset"
    and "start_offset \<le> end_offset"
    and "trim_excess True end_offset all_data current_offset = (all_data', current_offset')"
  shows "int (length all_data') \<le> current_offset' - start_offset
       \<and> current_offset' = min current_offset end_offset
       \<and> all_data' = take (length all_data - nat (current_offset - current_offset')) all_data"
  using assms by (auto simp: trim_excess_def Let_def split: if_splits)

lemma bounded_loop_terminates:
  assumes "int (length all_data) \<le> current_offset - start_offset"
    and "current_offset \<le> end_offset"
  shows "\<exists>result. fetch_range_loop server end_offset True all_data current_offset max_limit n
                    = Some result
               \<and> int (length result) \<le> end_offset - start_offset"
  using assms
proof (induction "nat (end_offset - current_offset)"
    arbitrary: all_data current_offset max_limit n rule: less_induct)
  case less
  show ?case
  proof (cases "current_offset \<ge> end_offset")
    case True
    then show ?thesis
      using less.prems by (subst fetch_range_loop.simps) simp
  next
    case False
    define lim where "lim = min max_limit (end_offset - current_offset)"
    obtain oc n' where io: "inner_loop server current_offset lim n 0 = (oc, n')"
      by (cases "inner_loop server current_offset lim n 0")
    show ?thesis
    proof (cases oc)
      case (Page data)
      have ne: "data \<noteq> []" using inner_loop_page_nonempty io Page by blast
      obtain ad co where tr: "trim_excess True end_offset (all_data @ data)
                        (current_offset + int (length data)) = (ad, co)"
        by (cases "trim_excess True end_offset (all_data @ data)
                        (current_offset + int (length data))")
      have pre: "int (length (all_data @ data)) \<le> current_offset + int (length data) - start_offset"
        using less.prems by simp
      have se: "start_offset \<le> end_offset" using less.prems by linarith
      have t: "int (length ad) \<le> co - start_offset"
              "co = min (current_offset + int (length data)) end_offset"
        using trim_excess_bounded [OF pre se tr] by blast+
      show ?thesis
      proof (cases "co \<ge> end_offset")
        case True
        with t have "int (length ad) \<le> end_offset - start_offset" by simp
        then show ?thesis
          using False io Page tr True
          by (subst fetch_range_loop.simps) (simp add: lim_def [symmetric])
      next
        case co: False
        have gt: "current_offset < co" using t(2) ne False by (simp add: min_def)
        have m: "nat (end_offset - co) < nat (end_offset - current_offset)"
          using gt co by simp
        have le: "co \<le> end_offset" using co by simp
        obtain result where r: "fetch_range_loop server end_offset True ad co lim n' = Some result"
            "int (length result) \<le> end_offset - start_offset"
          using less.hyps [OF m t(1) le] by blast
        show ?thesis
          using False io Page tr co r
          by (subst fetch_range_loop.simps) (simp add: lim_def [symmetric])
      qed
    next
      case Exhausted
      have "int (length all_data) \<le> end_offset - start_offset" using less.prems by linarith
      then show ?thesis
        using False io Exhausted
        by (subst fetch_range_loop.simps) (simp add: lim_def [symmetric])
    next
      case Return
      have "int (length all_data) \<le> end_offset - start_offset" using less.prems by linarith
      then show ?thesis
        using False io Return
        by (subst fetch_range_loop.simps) (simp add: lim_def [symmetric])
    qed
  qed
qed

lemma bounded_worker:
  assumes "process_id < num_processes" and "start_offset \<le> end_offset"
  shows "\<exists>result. fetch_range server start_offset end_offset process_id num_processes max_limit
                    = Some result
               \<and> int (length result) \<le> end_offset - start_offset"
  using bounded_loop_terminates [of "[]" start_offset start_offset end_offset server max_limit 0] assms
  by (simp add: fetch_range_def)

lemma concat_length_bound:
  "\<forall>r \<in> set rs. int (length r) \<le> c \<Longrightarrow> int (length (concat rs)) \<le> int (length rs) * c"
  by (induction rs) (auto simp: algebra_simps)

lemma bounded_workers_window_bound:
  assumes "0 \<le> records_per_process"
  shows "(\<exists>rs. map Some rs = butlast (worker_results server num_processes records_per_process)
            \<and> (\<forall>r \<in> set rs. int (length r) \<le> records_per_process)
            \<and> int (length (concat rs)) \<le> int (num_processes - 1) * records_per_process)
       \<and> (\<forall>all_data current_offset start_offset end_offset.
             int (length all_data) \<le> current_offset - start_offset \<and> start_offset \<le> end_offset \<longrightarrow>
             (case trim_excess True end_offset all_data current_offset of
                (all_data', current_offset') \<Rightarrow>
                  current_offset' = min current_offset end_offset
                \<and> all_data' = take (length all_data - nat (current_offset - current_offset')) all_data
                \<and> int (length all_data') \<le> current_offset' - start_offset))"
proof -
  define W where "W i = fetch_range (server (int i + 1)) (int i * records_per_process)
      ((int i + 1) * records_per_process) (int i + 1) (int num_processes) 500" for i
  have wr: "worker_results server num_processes records_per_process = map W [0..<num_processes]"
    by (simp add: worker_results_def ranges_def W_def comp_def)
  have bl: "butlast (map W [0..<num_processes]) = map W [0..<num_processes - 1]"
  proof -
    have "butlast [0..<num_processes] = [0..<num_processes - 1]"
      by (cases num_processes) simp_all
    then show ?thesis by (simp add: map_butlast [symmetric])
  qed
  have each: "\<exists>r. W i = Some r \<and> int (length r) \<le> records_per_process"
    if "i < num_processes - 1" for i
  proof -
    have b: "int i + 1 < int num_processes" using that by linarith
    have s: "int i * records_per_process \<le> (int i + 1) * records_per_process"
      using assms by (simp add: algebra_simps)
    have d: "(int i + 1) * records_per_process - int i * records_per_process = records_per_process"
      by (simp add: algebra_simps)
    show ?thesis
      using bounded_worker [OF b s, of "server (int i + 1)" 500] d by (simp add: W_def)
  qed
  define rs where "rs = map (\<lambda>i. the (W i)) [0..<num_processes - 1]"
  have each': "Some (the (W i)) = W i \<and> int (length (the (W i))) \<le> records_per_process"
    if "i < num_processes - 1" for i
    using each [OF that] by auto
  have m: "map Some rs = map W [0..<num_processes - 1]"
    using each' by (simp add: rs_def)
  have e: "\<forall>r \<in> set rs. int (length r) \<le> records_per_process"
    using each' by (auto simp: rs_def)
  have l: "length rs = num_processes - 1" by (simp add: rs_def)
  have t: "int (length (concat rs)) \<le> int (num_processes - 1) * records_per_process"
    using concat_length_bound [OF e] l by simp
  have first: "\<exists>rs. map Some rs = butlast (worker_results server num_processes records_per_process)
            \<and> (\<forall>r \<in> set rs. int (length r) \<le> records_per_process)
            \<and> int (length (concat rs)) \<le> int (num_processes - 1) * records_per_process"
    using m e t wr bl by auto
  have second: "\<forall>all_data current_offset start_offset end_offset.
             int (length all_data) \<le> current_offset - start_offset \<and> start_offset \<le> end_offset \<longrightarrow>
             (case trim_excess True end_offset (all_data :: 'b list) current_offset of
                (all_data', current_offset') \<Rightarrow>
                  current_offset' = min current_offset end_offset
                \<and> all_data' = take (length all_data - nat (current_offset - current_offset')) all_data
                \<and> int (length all_data') \<le> current_offset' - start_offset)"
  proof (intro allI impI)
    fix all_data :: "'b list" and current_offset start_offset end_offset :: int
    assume a: "int (length all_data) \<le> current_offset - start_offset \<and> start_offset \<le> end_offset"
    obtain ad co where tr: "trim_excess True end_offset all_data current_offset = (ad, co)"
      by (cases "trim_excess True end_offset all_data current_offset")
    from a have a1: "int (length all_data) \<le> current_offset - start_offset"
      and a2: "start_offset \<le> end_offset" by simp_all
    show "case trim_excess True end_offset all_data current_offset of
                (all_data', current_offset') \<Rightarrow>
                  current_offset' = min current_offset end_offset
                \<and> all_data' = take (length all_data - nat (current_offset - current_offset')) all_data
                \<and> int (length all_data') \<le> current_offset' - start_offset"
    proof -
      have g: "co = min current_offset end_offset
             \<and> ad = take (length all_data - nat (current_offset - co)) all_data
             \<and> int (length ad) \<le> co - start_offset"
        using trim_excess_bounded [OF a1 a2 tr] by blast
      show ?thesis unfolding tr prod.case by (rule g)
    qed
  qed
  from first second show ?thesis by blast
qed

lemma inner_loop_first_page:
  assumes "page (srv n current_offset max_limit) = Success data" and "data \<noteq> []"
  shows "inner_loop srv current_offset max_limit n 0 = (Page data, n + 1)"
  using assms by (subst inner_loop.simps) simp

lemma inner_loop_first_return:
  assumes "page (srv n current_offset max_limit) = Success []
         \<or> page (srv n current_offset max_limit) = Failure"
  shows "inner_loop srv current_offset max_limit n 0 = (Return, n + 1)"
  using assms by (subst inner_loop.simps) auto

lemma inner_loop_rate_limited:
  assumes "\<forall>j<5. page (srv (n + j) current_offset max_limit) = RateLimited"
  shows "inner_loop srv current_offset max_limit n 0 = (Exhausted, n + 5)"
proof -
  have p0: "page (srv n current_offset max_limit) = RateLimited"
    using assms [rule_format, of 0] by simp
  have p1: "page (srv (n + 1) current_offset max_limit) = RateLimited"
    using assms [rule_format, of 1] by simp
  have p2: "page (srv (n + 1 + 1) current_offset max_limit) = RateLimited"
  proof -
    have e: "n + 1 + 1 = n + 2" by simp
    have l: "(2 :: nat) < 5" by simp
    have "page (srv (n + 2) current_offset max_limit) = RateLimited"
      using assms l by blast
    then show ?thesis by (simp only: e)
  qed
  have p3: "page (srv (n + 1 + 1 + 1) current_offset max_limit) = RateLimited"
  proof -
    have e: "n + 1 + 1 + 1 = n + 3" by simp
    have l: "(3 :: nat) < 5" by simp
    have "page (srv (n + 3) current_offset max_limit) = RateLimited"
      using assms l by blast
    then show ?thesis by (simp only: e)
  qed
  have p4: "page (srv (n + 1 + 1 + 1 + 1) current_offset max_limit) = RateLimited"
  proof -
    have e: "n + 1 + 1 + 1 + 1 = n + 4" by simp
    have l: "(4 :: nat) < 5" by simp
    have "page (srv (n + 4) current_offset max_limit) = RateLimited"
      using assms l by blast
    then show ?thesis by (simp only: e)
  qed
  have "inner_loop srv current_offset max_limit n 0
          = inner_loop srv current_offset max_limit (n + 1) (0 + 1)"
    using p0 by (subst inner_loop.simps) simp
  also have "\<dots> = inner_loop srv current_offset max_limit (n + 1 + 1) (0 + 1 + 1)"
    using p1 by (subst inner_loop.simps) simp
  also have "\<dots> = inner_loop srv current_offset max_limit (n + 1 + 1 + 1) (0 + 1 + 1 + 1)"
    using p2 by (subst inner_loop.simps) simp
  also have "\<dots> = inner_loop srv current_offset max_limit (n + 1 + 1 + 1 + 1) (0 + 1 + 1 + 1 + 1)"
    using p3 by (subst inner_loop.simps) simp
  also have "\<dots> = (Exhausted, n + 1 + 1 + 1 + 1 + 1)"
    using p4 by (subst inner_loop.simps) simp
  finally show ?thesis by simp
qed

lemma concat_pages_Suc:
  "concat (map pages [0..<Suc i]) = pages 0 @ concat (map (\<lambda>j. pages (Suc j)) [0..<i])"
proof -
  have "[0..<Suc i] = 0 # map Suc [0..<i]"
    by (simp add: upt_conv_Cons map_Suc_upt del: upt_Suc)
  then show ?thesis by (simp add: comp_def del: upt_Suc)
qed

lemma unbounded_loop_pages:
  assumes "\<forall>i<k. inner_loop srv (current_offset + int (length (concat (map pages [0..<i]))))
                    max_limit (ns i) 0 = (Page (pages i), ns (Suc i))"
    and "fst (inner_loop srv (current_offset + int (length (concat (map pages [0..<k]))))
                max_limit (ns k) 0) \<in> {Return, Exhausted}"
  shows "fetch_range_loop srv end_offset False all_data current_offset max_limit (ns 0)
           = Some (all_data @ concat (map pages [0..<k]))"
  using assms
proof (induction k arbitrary: all_data current_offset pages ns)
  case 0
  obtain oc n' where io: "inner_loop srv current_offset max_limit (ns 0) 0 = (oc, n')"
    by (cases "inner_loop srv current_offset max_limit (ns 0) 0")
  with "0.prems"(2) have "oc = Return \<or> oc = Exhausted" by simp
  then show ?case
    using io by (subst fetch_range_loop.simps) auto
next
  case (Suc k)
  have first: "inner_loop srv current_offset max_limit (ns 0) 0 = (Page (pages 0), ns (Suc 0))"
    using Suc.prems(1) [rule_format, of 0] by simp
  let ?cur = "current_offset + int (length (pages 0))"
  have rest: "\<forall>i<k. inner_loop srv (?cur + int (length (concat (map (\<lambda>j. pages (Suc j)) [0..<i]))))
                    max_limit (ns (Suc i)) 0 = (Page (pages (Suc i)), ns (Suc (Suc i)))"
  proof (intro allI impI)
    fix i assume "i < k"
    then have "inner_loop srv (current_offset + int (length (concat (map pages [0..<Suc i]))))
                    max_limit (ns (Suc i)) 0 = (Page (pages (Suc i)), ns (Suc (Suc i)))"
      using Suc.prems(1) [rule_format, of "Suc i"] by simp
    then show "inner_loop srv (?cur + int (length (concat (map (\<lambda>j. pages (Suc j)) [0..<i]))))
                    max_limit (ns (Suc i)) 0 = (Page (pages (Suc i)), ns (Suc (Suc i)))"
      by (simp only: concat_pages_Suc length_append of_nat_add add.assoc)
  qed
  have fin: "fst (inner_loop srv (?cur + int (length (concat (map (\<lambda>j. pages (Suc j)) [0..<k]))))
                max_limit (ns (Suc k)) 0) \<in> {Return, Exhausted}"
    using Suc.prems(2) by (simp only: concat_pages_Suc length_append of_nat_add add.assoc)
  have ih: "fetch_range_loop srv end_offset False (all_data @ pages 0) ?cur max_limit (ns (Suc 0))
           = Some ((all_data @ pages 0) @ concat (map (\<lambda>j. pages (Suc j)) [0..<k]))"
    using Suc.IH [of ?cur "\<lambda>j. pages (Suc j)" "\<lambda>j. ns (Suc j)" "all_data @ pages 0"] rest fin
    by simp
  have step: "fetch_range_loop srv end_offset False all_data current_offset max_limit (ns 0)
        = fetch_range_loop srv end_offset False (all_data @ pages 0) ?cur max_limit (ns (Suc 0))"
    using first by (subst fetch_range_loop.simps) (simp add: trim_excess_def)
  show ?case
    unfolding step ih by (simp only: concat_pages_Suc append_assoc)
qed

text \<open>
  Claim C3, as the code has it. In a run over \<open>num_processes\<close> equal contiguous windows of
  \<open>records_per_process\<close> records with worker identities 1 to \<open>num_processes\<close>, every
  worker but the last one ends and returns at most \<open>records_per_process\<close> records, the
  size of its window, whatever the server sends, so these workers together return at most
  \<open>(num_processes - 1) * records_per_process\<close> records. For such a worker, whenever the
  offset goes past the end of the window after a page was appended, the excess records are
  dropped from the tail of the accumulator and the offset is set to the end of the window.
  The last worker has \<^verbatim>\<open>process_id = num_processes\<close> and is not bounded by its window:
  whatever its \<^verbatim>\<open>end_offset\<close>, it appends every non-empty page whole, asks the next
  page at the offset moved on by the length of the page, and returns all the pages when a
  page request ends without data, which is an empty page, an error that is not a rate
  limit, or five rate-limited attempts in a row.
\<close>

theorem bounded_workers_within_window:
  assumes "0 \<le> records_per_process"
  shows "(\<exists>rs. map Some rs = butlast (worker_results (server :: int \<Rightarrow> nat \<Rightarrow> int \<Rightarrow> int \<Rightarrow> 'a reply)
                                 num_processes records_per_process)
            \<and> (\<forall>r \<in> set rs. int (length r) \<le> records_per_process)
            \<and> int (length (concat rs)) \<le> int (num_processes - 1) * records_per_process)
       \<and> (\<forall>all_data current_offset start_offset end_offset.
             int (length all_data) \<le> current_offset - start_offset \<and> start_offset \<le> end_offset \<longrightarrow>
             (case trim_excess True end_offset all_data current_offset of
                (all_data', current_offset') \<Rightarrow>
                  current_offset' = min current_offset end_offset
                \<and> all_data' = take (length all_data - nat (current_offset - current_offset')) all_data
                \<and> int (length all_data') \<le> current_offset' - start_offset))
       \<and> (0 < num_processes \<longrightarrow>
            last (worker_results server num_processes records_per_process)
              = fetch_range (server (int num_processes))
                  (int (num_processes - 1) * records_per_process)
                  (int num_processes * records_per_process)
                  (int num_processes) (int num_processes) 500)
       \<and> (\<forall>(srv :: nat \<Rightarrow> int \<Rightarrow> int \<Rightarrow> 'a reply) start_offset end_offset process_id max_limit pages ns k.
             \<not> process_id < int num_processes \<and> ns 0 = 0
             \<and> (\<forall>i<k. inner_loop srv
                           (start_offset + int (length (concat (map pages [0..<i]))))
                           max_limit (ns i) 0
                         = (Page (pages i), ns (Suc i)))
             \<and> fst (inner_loop srv (start_offset + int (length (concat (map pages [0..<k]))))
                      max_limit (ns k) 0) \<in> {Return, Exhausted} \<longrightarrow>
             fetch_range srv start_offset end_offset process_id (int num_processes) max_limit
               = Some (concat (map pages [0..<k])))
       \<and> (\<forall>(srv :: nat \<Rightarrow> int \<Rightarrow> int \<Rightarrow> 'a reply) n current_offset max_limit data.
             page (srv n current_offset max_limit) = Success data \<and> data \<noteq> [] \<longrightarrow>
             inner_loop srv current_offset max_limit n 0 = (Page data, n + 1))
       \<and> (\<forall>(srv :: nat \<Rightarrow> int \<Rightarrow> int \<Rightarrow> 'a reply) n current_offset max_limit.
             page (srv n current_offset max_limit) = Success []
             \<or> page (srv n current_offset max_limit) = Failure \<longrightarrow>
             inner_loop srv current_offset max_limit n 0 = (Return, n + 1))
       \<and> (\<forall>(srv :: nat \<Rightarrow> int \<Rightarrow> int \<Rightarrow> 'a reply) n current_offset max_limit.
             (\<forall>j<5. page (srv (n + j) current_offset max_limit) = RateLimited) \<longrightarrow>
             inner_loop srv current_offset max_limit n 0 = (Exhausted, n + 5))"
proof -
  have lastw: "0 < num_processes \<longrightarrow>
            last (worker_results server num_processes records_per_process)
              = fetch_range (server (int num_processes))
                  (int (num_processes - 1) * records_per_process)
                  (int num_processes * records_per_process)
                  (int num_processes) (int num_processes) 500"
  proof
    assume "0 < num_processes"
    then obtain m where m: "num_processes = Suc m" by (cases num_processes) auto
    show "last (worker_results server num_processes records_per_process)
              = fetch_range (server (int num_processes))
                  (int (num_processes - 1) * records_per_process)
                  (int num_processes * records_per_process)
                  (int num_processes) (int num_processes) 500"
      unfolding m by (simp add: worker_results_def ranges_def algebra_simps)
  qed
  have unb: "\<forall>srv start_offset end_offset process_id max_limit pages ns k.
             \<not> process_id < int num_processes \<and> ns 0 = 0
             \<and> (\<forall>i<k. inner_loop srv
                           (start_offset + int (length (concat (map pages [0..<i]))))
                           max_limit (ns i) 0
                         = (Page (pages i :: 'a list), ns (Suc i)))
             \<and> fst (inner_loop srv (start_offset + int (length (concat (map pages [0..<k]))))
                      max_limit (ns k) 0) \<in> {Return, Exhausted} \<longrightarrow>
             fetch_range srv start_offset end_offset process_id (int num_processes) max_limit
               = Some (concat (map pages [0..<k]))"
  proof (intro allI impI)
    fix srv :: "nat \<Rightarrow> int \<Rightarrow> int \<Rightarrow> 'a reply"
      and start_offset end_offset process_id max_limit :: int
      and pages :: "nat \<Rightarrow> 'a list" and ns :: "nat \<Rightarrow> nat" and k :: nat
    assume a: "\<not> process_id < int num_processes \<and> ns 0 = 0
             \<and> (\<forall>i<k. inner_loop srv
                           (start_offset + int (length (concat (map pages [0..<i]))))
                           max_limit (ns i) 0
                         = (Page (pages i), ns (Suc i)))
             \<and> fst (inner_loop srv (start_offset + int (length (concat (map pages [0..<k]))))
                      max_limit (ns k) 0) \<in> {Return, Exhausted}"
    from a have nb: "\<not> process_id < int num_processes"
      by (rule conjunct1)
    from a have z: "ns 0 = 0"
      by (rule conjunct1 [OF conjunct2])
    from a have pg: "\<forall>i<k. inner_loop srv
                           (start_offset + int (length (concat (map pages [0..<i]))))
                           max_limit (ns i) 0
                         = (Page (pages i), ns (Suc i))"
      by (rule conjunct1 [OF conjunct2 [OF conjunct2]])
    from a have fin: "fst (inner_loop srv (start_offset + int (length (concat (map pages [0..<k]))))
                      max_limit (ns k) 0) \<in> {Return, Exhausted}"
      by (rule conjunct2 [OF conjunct2 [OF conjunct2]])
    have "fetch_range_loop srv end_offset False [] start_offset max_limit (ns 0)
           = Some ([] @ concat (map pages [0..<k]))"
      using unbounded_loop_pages [where srv = srv and current_offset = start_offset
          and pages = pages and max_limit = max_limit and ns = ns and k = k
          and end_offset = end_offset and all_data = "[]"] pg fin
      by blast
    then show "fetch_range srv start_offset end_offset process_id (int num_processes) max_limit
               = Some (concat (map pages [0..<k]))"
      using nb z by (simp add: fetch_range_def)
  qed
  have i1: "\<forall>srv n current_offset max_limit data.
             page (srv n current_offset max_limit) = Success (data :: 'a list) \<and> data \<noteq> [] \<longrightarrow>
             inner_loop srv current_offset max_limit n 0 = (Page data, n + 1)"
  proof (intro allI impI)
    fix srv :: "nat \<Rightarrow> int \<Rightarrow> int \<Rightarrow> 'a reply" and n current_offset max_limit data
    assume "page (srv n current_offset max_limit) = Success data \<and> data \<noteq> []"
    then show "inner_loop srv current_offset max_limit n 0 = (Page data, n + 1)"
      using inner_loop_first_page [where srv = srv and n = n and current_offset = current_offset
          and max_limit = max_limit and data = data] by simp
  qed
  have i2: "\<forall>srv n current_offset max_limit.
             page (srv n current_offset max_limit) = Success ([] :: 'a list)
             \<or> page (srv n current_offset max_limit) = Failure \<longrightarrow>
             inner_loop srv current_offset max_limit n 0 = (Return, n + 1)"
  proof (intro allI impI)
    fix srv :: "nat \<Rightarrow> int \<Rightarrow> int \<Rightarrow> 'a reply" and n current_offset max_limit
    assume "page (srv n current_offset max_limit) = Success []
             \<or> page (srv n current_offset max_limit) = Failure"
    then show "inner_loop srv current_offset max_limit n 0 = (Return, n + 1)"
      by (rule inner_loop_first_return [where srv = srv and n = n
            and current_offset = current_offset and max_limit = max_limit])
  qed
  have i3: "\<forall>srv n current_offset max_limit.
             (\<forall>j<5. page (srv (n + j) current_offset max_limit) = (RateLimited :: 'a page_result)) \<longrightarrow>
             inner_loop srv current_offset max_limit n 0 = (Exhausted, n + 5)"
  proof (intro allI impI)
    fix srv :: "nat \<Rightarrow> int \<Rightarrow> int \<Rightarrow> 'a reply" and n current_offset max_limit
    assume "\<forall>j<5. page (srv (n + j) current_offset max_limit) = RateLimited"
    then show "inner_loop srv current_offset max_limit n 0 = (Exhausted, n + 5)"
      by (rule inner_loop_rate_limited [where srv = srv and n = n
            and current_offset = current_offset and max_limit = max_limit])
  qed
  show ?thesis
    apply (intro conjI)
          apply (rule conjunct1 [OF bounded_workers_window_bound [OF assms]])
         apply (rule conjunct2 [OF bounded_workers_window_bound [OF assms]])
        apply (rule lastw)
       apply (rule unb)
      apply (rule i1)
     apply (rule i2)
    apply (rule i3)
    done
qed

theorem bounded_workers_within_window_witness:
  "butlast (worker_results
      (\<lambda>process_id n offset limit. if n = 0 then Reply 200 [1, 2, 3 :: nat] else Reply 200 []) 2 2)
     = [Some [1, 2]]
   \<and> int (length [1, 2 :: nat]) \<le> 2
   \<and> trim_excess True 2 [1, 2, 3 :: nat] 3 = ([1, 2], 2)
   \<and> last (worker_results
      (\<lambda>process_id n offset limit. if n = 0 then Reply 200 [1, 2, 3 :: nat] else Reply 200 []) 2 2)
     = Some [1, 2, 3]"
proof -
  let ?server = "\<lambda>(process_id :: int) (n :: nat) (offset :: int) (limit :: int).
                   if n = 0 then Reply 200 [1, 2, 3 :: nat] else Reply 200 []"
  have w: "worker_results ?server 2 2 = [Some [1, 2], Some [1, 2, 3]]"
    by (simp add: worker_results_def ranges_def fetch_range_def fetch_range_loop.simps
        inner_loop.simps page_def trim_excess_def numeral_2_eq_2)
  have t: "trim_excess True 2 [1, 2, 3 :: nat] 3 = ([1, 2], 2)"
    by (simp add: trim_excess_def)
  have h: "(0 :: int) \<le> 2" by simp
  have v: "butlast (worker_results ?server 2 2) = [Some [1, 2]]
         \<and> int (length [1, 2 :: nat]) \<le> 2
         \<and> trim_excess True 2 [1, 2, 3 :: nat] 3 = ([1, 2], 2)
         \<and> last (worker_results ?server 2 2) = Some [1, 2, 3]"
    unfolding w t by simp
  from bounded_workers_within_window [OF h, where num_processes = 2 and server = ?server] v
  show ?thesis by blast
qed

text \<open>
  The claim as written bounds every worker by its window. With a single window of 250
  records (the pager of the live positions), worker 1 is the last worker; the server
  answers the first request with 251 records and the second with none, and the worker
  returns all 251.
\<close>

theorem last_worker_exceeds_window:
  "worker_results
      (\<lambda>process_id n offset limit. if n = 0 then Reply 200 (replicate 251 (0 :: nat)) else Reply 200 [])
      1 250
     = [Some (replicate 251 0)]
   \<and> length (replicate 251 (0 :: nat)) > 250"
  by (simp add: worker_results_def ranges_def fetch_range_def fetch_range_loop.simps
      inner_loop.simps page_def trim_excess_def)

section \<open>Properties of the graph pager\<close>

lemma get_all_loop_pages:
  assumes "\<forall>i. j \<le> i \<and> i < j + n \<longrightarrow>
             nth_page server transform batch_size i \<noteq> []
             \<and> batch_size \<le> int (length (nth_page server transform batch_size i))"
    and "nth_page server transform batch_size (j + n) = []
         \<or> int (length (nth_page server transform batch_size (j + n))) < batch_size"
  shows "get_all_loop server transform batch_size acc (int j * batch_size) j
           = Some (acc @ concat (map (nth_page server transform batch_size) [j..<j + n + 1]))"
  using assms
proof (induction n arbitrary: j acc)
  case 0
  then show ?case
    by (subst get_all_loop.simps) (auto simp: nth_page_def Let_def)
next
  case (Suc n)
  have full: "nth_page server transform batch_size j \<noteq> []"
    "batch_size \<le> int (length (nth_page server transform batch_size j))"
    using Suc.prems(1) by simp_all
  have sk: "int j * batch_size + batch_size = int (Suc j) * batch_size"
    by (simp add: algebra_simps)
  have ih: "get_all_loop server transform batch_size
              (acc @ nth_page server transform batch_size j) (int (Suc j) * batch_size) (Suc j)
           = Some ((acc @ nth_page server transform batch_size j)
                   @ concat (map (nth_page server transform batch_size) [Suc j..<Suc j + n + 1]))"
    using Suc.IH [of "Suc j" "acc @ nth_page server transform batch_size j"] Suc.prems by simp
  have u: "[j..<j + Suc n + 1] = j # [Suc j..<Suc j + n + 1]"
    by (simp add: upt_conv_Cons)
  have step: "get_all_loop server transform batch_size acc (int j * batch_size) j
        = get_all_loop server transform batch_size
              (acc @ nth_page server transform batch_size j) (int (Suc j) * batch_size) (Suc j)"
    using full sk
    by (subst get_all_loop.simps) (simp add: nth_page_def Let_def)
  show ?case
    unfolding step ih u by simp
qed

text \<open>
  Claim C7. \<^verbatim>\<open>get_all_user_positions\<close> asks for the first page with \<^verbatim>\<open>skip = 0\<close>
  and, after each page that is not shorter than the batch size, for the next one with
  \<^verbatim>\<open>skip\<close> moved on by the batch size. When the pages \<open>0\<close> to \<open>k - 1\<close> are full and page
  \<open>k\<close> is shorter than the batch size (or empty), it returns the positions of the pages
  \<open>0\<close> to \<open>k\<close> in order, and asks no further. A transport error or an error result of
  the query gives an empty page: at page \<open>k\<close> it ends the pagination with the positions
  of the pages before it, as an empty page of data would, and nothing is raised.
\<close>

theorem get_all_user_positions_pages:
  assumes "\<forall>i<k. nth_page server transform batch_size i \<noteq> []
             \<and> batch_size \<le> int (length (nth_page server transform batch_size i))"
  shows "(nth_page server transform batch_size k = []
          \<or> int (length (nth_page server transform batch_size k)) < batch_size \<longrightarrow>
            get_all_user_positions server transform batch_size
              = Some (concat (map (nth_page server transform batch_size) [0..<k + 1])))
       \<and> (server k batch_size (int k * batch_size) \<in> {PostRaised, PostJson GqlError,
             PostJson GqlNoData, PostJson (GqlData None), PostJson (GqlData (Some []))} \<longrightarrow>
            get_all_user_positions server transform batch_size
              = Some (concat (map (nth_page server transform batch_size) [0..<k])))"
proof -
  have a: "get_all_user_positions server transform batch_size
              = Some (concat (map (nth_page server transform batch_size) [0..<k + 1]))"
    if "nth_page server transform batch_size k = []
          \<or> int (length (nth_page server transform batch_size k)) < batch_size"
    using get_all_loop_pages [of 0 k server transform batch_size "[]"] assms that
    by (simp add: get_all_user_positions_def)
  have b: "nth_page server transform batch_size k = []"
    if "server k batch_size (int k * batch_size) \<in> {PostRaised, PostJson GqlError,
             PostJson GqlNoData, PostJson (GqlData None), PostJson (GqlData (Some []))}"
    using that by (auto simp: nth_page_def get_user_positions_def query_graphql_def)
  show ?thesis
    using a b by auto
qed

theorem get_all_user_positions_pages_witness:
  "get_all_user_positions
     (\<lambda>n first skip. if skip = 0 then PostJson (GqlData (Some [1, 2 :: nat]))
                      else if skip = 2 then PostJson (GqlData (Some [3, 4]))
                      else PostRaised)
     (\<lambda>x. x) 2
   = Some [1, 2, 3, 4]"
proof -
  let ?server = "\<lambda>(n :: nat) (first :: int) (skip :: int).
                      if skip = 0 then PostJson (GqlData (Some [1, 2 :: nat]))
                      else if skip = 2 then PostJson (GqlData (Some [3, 4]))
                      else PostRaised"
  have p0: "nth_page ?server (\<lambda>x. x) 2 0 = [1, 2]"
    by (simp add: nth_page_def get_user_positions_def query_graphql_def)
  have p1: "nth_page ?server (\<lambda>x. x) 2 1 = [3, 4]"
    by (simp add: nth_page_def get_user_positions_def query_graphql_def)
  have h: "\<forall>i<2. nth_page ?server (\<lambda>x. x) 2 i \<noteq> []
             \<and> 2 \<le> int (length (nth_page ?server (\<lambda>x. x) 2 i))"
    using p0 p1 by (auto simp: less_Suc_eq numeral_2_eq_2)
  have u: "[0..<2] = [0, 1]" by (simp add: numeral_2_eq_2)
  show ?thesis
    using get_all_user_positions_pages [of 2 ?server "\<lambda>x. x" 2] h p0 p1 u
    by simp
qed

section \<open>Properties of the batched PNL fetch\<close>

text \<open>
  Induction along the runs of the loop: a new page is asked only below the cap, with the
  offset moved on by the positive limit, and a retry only with a larger retry count below
  the budget.
\<close>

lemma pnl_induct:
  assumes "0 < (limit :: int)"
    and step: "\<And>batch_data offset retry_count n events.
        (\<And>bd ev. offset + limit < 10000 \<Longrightarrow> P bd (offset + limit) 0 (n + 1) ev) \<Longrightarrow>
        (\<And>ev. int (retry_count + 1) < max_retries \<Longrightarrow>
               P batch_data offset (retry_count + 1) (n + 1) ev) \<Longrightarrow>
        P batch_data offset (retry_count :: nat) (n :: nat) events"
  shows "P batch_data offset retry_count n events"
proof -
  have outer: "\<forall>offset. nat (10000 - offset) = k \<longrightarrow> (\<forall>bd rc n ev. P bd offset rc n ev)" for k
  proof (induction k rule: less_induct)
    case (less k)
    note next_page = less.IH
    show ?case
    proof (intro allI impI)
      fix offset bd rc n ev
      assume k: "nat (10000 - offset) = k"
      have inner: "\<forall>rc. nat (max_retries - int rc) = j \<longrightarrow> (\<forall>n ev. P bd offset rc n ev)" for j
      proof (induction j rule: less_induct)
        case (less j)
        show ?case
        proof (intro allI impI)
          fix rc n ev
          assume j: "nat (max_retries - int rc) = j"
          show "P bd offset rc n ev"
          proof (rule step)
            fix bd' ev'
            assume "offset + limit < 10000"
            then have "nat (10000 - (offset + limit)) < k"
              using assms(1) k by linarith
            then show "P bd' (offset + limit) 0 (n + 1) ev'"
              using next_page by blast
          next
            fix ev'
            assume "int (rc + 1) < max_retries"
            then have "nat (max_retries - int (rc + 1)) < j"
              using j by linarith
            then show "P bd offset (rc + 1) (n + 1) ev'"
              using less.IH by blast
          qed
        qed
      qed
      then show "P bd offset rc n ev" by blast
    qed
  qed
  then show ?thesis by blast
qed

text \<open>One iteration: the loop ends, moves to the next page, or asks the same page again.\<close>

lemma pnl_loop_data_last:
  assumes "pnl_page (server n offset) = PnlData data"
    and "int (length data) < limit \<or> offset + limit \<ge> 10000"
  shows "pnl_loop server limit max_retries batch_data offset retry_count n events
           = Some (batch_data @ data, events @ [PnlGet offset])"
  using assms by (subst pnl_loop.simps) auto

lemma pnl_loop_data_next:
  assumes "pnl_page (server n offset) = PnlData data"
    and "\<not> int (length data) < limit" and "offset + limit < 10000"
  shows "pnl_loop server limit max_retries batch_data offset retry_count n events
           = pnl_loop server limit max_retries (batch_data @ data) (offset + limit) 0 (n + 1)
               (events @ [PnlGet offset, PnlSleep 0.1])"
  using assms by (subst pnl_loop.simps) auto

lemma pnl_loop_halt:
  assumes "pnl_page (server n offset) = PnlStop \<or> pnl_page (server n offset) = PnlFatal"
  shows "pnl_loop server limit max_retries batch_data offset retry_count n events
           = Some (batch_data, events @ [PnlGet offset])"
  using assms by (subst pnl_loop.simps) auto

lemma pnl_loop_budget_spent:
  assumes "pnl_page (server n offset) \<in> {PnlRateLimit, PnlOther, PnlExn}"
    and "int (retry_count + 1) \<ge> max_retries"
  shows "\<exists>sl. pnl_loop server limit max_retries batch_data offset retry_count n events
                 = Some (batch_data, events @ PnlGet offset # sl)
             \<and> (sl = [] \<or> (\<exists>dl. sl = [PnlSleep dl] \<and> dl \<le> 60))"
  using assms by (subst pnl_loop.simps) auto

lemma pnl_loop_retry:
  assumes "pnl_page (server n offset) \<in> {PnlRateLimit, PnlOther, PnlExn}"
    and "int (retry_count + 1) < max_retries"
  shows "\<exists>dl. dl \<le> 60
            \<and> pnl_loop server limit max_retries batch_data offset retry_count n events
                = pnl_loop server limit max_retries batch_data offset (retry_count + 1) (n + 1)
                    (events @ [PnlGet offset, PnlSleep dl])"
proof -
  consider "pnl_page (server n offset) = PnlRateLimit" | "pnl_page (server n offset) = PnlOther"
    | "pnl_page (server n offset) = PnlExn"
    using assms(1) by auto
  then show ?thesis
  proof cases
    case 1
    have "pnl_loop server limit max_retries batch_data offset retry_count n events
                = pnl_loop server limit max_retries batch_data offset (retry_count + 1) (n + 1)
                    (events @ [PnlGet offset, PnlSleep (min (2 * 2 ^ retry_count) 60)])"
      using 1 assms(2) by (subst pnl_loop.simps) auto
    moreover have "min (2 * 2 ^ retry_count) 60 \<le> (60 :: real)" by simp
    ultimately show ?thesis by blast
  next
    case 2
    have "pnl_loop server limit max_retries batch_data offset retry_count n events
                = pnl_loop server limit max_retries batch_data offset (retry_count + 1) (n + 1)
                    (events @ [PnlGet offset, PnlSleep (min (2 * 2 ^ (retry_count + 1)) 60)])"
      using 2 assms(2) by (subst pnl_loop.simps) auto
    moreover have "min (2 * 2 ^ (retry_count + 1)) 60 \<le> (60 :: real)" by simp
    ultimately show ?thesis by blast
  next
    case 3
    have "pnl_loop server limit max_retries batch_data offset retry_count n events
                = pnl_loop server limit max_retries batch_data offset (retry_count + 1) (n + 1)
                    (events @ [PnlGet offset, PnlSleep 2])"
      using 3 assms(2) by (subst pnl_loop.simps) auto
    moreover have "2 \<le> (60 :: real)" by simp
    ultimately show ?thesis by blast
  qed
qed

lemma pnl_step:
  "(\<exists>extra sl. pnl_loop server limit max_retries batch_data offset retry_count n events
                 = Some (batch_data @ extra, events @ PnlGet offset # sl)
       \<and> (extra = [] \<or> pnl_page (server n offset) = PnlData extra)
       \<and> (sl = [] \<or> (\<exists>dl. sl = [PnlSleep dl] \<and> dl \<le> 60)))
   \<or> (\<exists>data. pnl_page (server n offset) = PnlData data \<and> offset + limit < 10000
         \<and> pnl_loop server limit max_retries batch_data offset retry_count n events
             = pnl_loop server limit max_retries (batch_data @ data) (offset + limit) 0 (n + 1)
                 (events @ [PnlGet offset, PnlSleep 0.1]))
   \<or> (\<exists>dl. int (retry_count + 1) < max_retries \<and> dl \<le> 60
         \<and> pnl_loop server limit max_retries batch_data offset retry_count n events
             = pnl_loop server limit max_retries batch_data offset (retry_count + 1) (n + 1)
                 (events @ [PnlGet offset, PnlSleep dl]))"
proof (cases "pnl_page (server n offset)")
  case (PnlData data)
  show ?thesis
  proof (cases "int (length data) < limit \<or> offset + limit \<ge> 10000")
    case True
    have "pnl_loop server limit max_retries batch_data offset retry_count n events
           = Some (batch_data @ data, events @ PnlGet offset # [])"
      using pnl_loop_data_last [where server = server and n = n and offset = offset, OF PnlData True] by simp
    with PnlData show ?thesis by blast
  next
    case False
    then have "\<not> int (length data) < limit" "offset + limit < 10000" by simp_all
    from pnl_loop_data_next [where server = server and n = n and offset = offset, OF PnlData this] PnlData \<open>offset + limit < 10000\<close>
    show ?thesis by blast
  qed
next
  case PnlStop
  have "pnl_loop server limit max_retries batch_data offset retry_count n events
           = Some (batch_data @ [], events @ PnlGet offset # [])"
    using pnl_loop_halt [of server n offset] PnlStop by simp
  then show ?thesis by blast
next
  case PnlFatal
  have "pnl_loop server limit max_retries batch_data offset retry_count n events
           = Some (batch_data @ [], events @ PnlGet offset # [])"
    using pnl_loop_halt [of server n offset] PnlFatal by simp
  then show ?thesis by blast
next
  case PnlRateLimit
  then have k: "pnl_page (server n offset) \<in> {PnlRateLimit, PnlOther, PnlExn}" by simp
  show ?thesis
  proof (cases "int (retry_count + 1) < max_retries")
    case True
    from pnl_loop_retry [where server = server and n = n and offset = offset, OF k True] True show ?thesis by blast
  next
    case False
    then have "int (retry_count + 1) \<ge> max_retries" by simp
    from pnl_loop_budget_spent [where server = server and n = n and offset = offset and limit = limit and batch_data = batch_data and events = events, OF k this]
    obtain sl where "pnl_loop server limit max_retries batch_data offset retry_count n events
                 = Some (batch_data @ [], events @ PnlGet offset # sl)"
      "sl = [] \<or> (\<exists>dl. sl = [PnlSleep dl] \<and> dl \<le> 60)" by auto
    then show ?thesis by blast
  qed
next
  case PnlOther
  then have k: "pnl_page (server n offset) \<in> {PnlRateLimit, PnlOther, PnlExn}" by simp
  show ?thesis
  proof (cases "int (retry_count + 1) < max_retries")
    case True
    from pnl_loop_retry [where server = server and n = n and offset = offset, OF k True] True show ?thesis by blast
  next
    case False
    then have "int (retry_count + 1) \<ge> max_retries" by simp
    from pnl_loop_budget_spent [where server = server and n = n and offset = offset and limit = limit and batch_data = batch_data and events = events, OF k this]
    obtain sl where "pnl_loop server limit max_retries batch_data offset retry_count n events
                 = Some (batch_data @ [], events @ PnlGet offset # sl)"
      "sl = [] \<or> (\<exists>dl. sl = [PnlSleep dl] \<and> dl \<le> 60)" by auto
    then show ?thesis by blast
  qed
next
  case PnlExn
  then have k: "pnl_page (server n offset) \<in> {PnlRateLimit, PnlOther, PnlExn}" by simp
  show ?thesis
  proof (cases "int (retry_count + 1) < max_retries")
    case True
    from pnl_loop_retry [where server = server and n = n and offset = offset, OF k True] True show ?thesis by blast
  next
    case False
    then have "int (retry_count + 1) \<ge> max_retries" by simp
    from pnl_loop_budget_spent [where server = server and n = n and offset = offset and limit = limit and batch_data = batch_data and events = events, OF k this]
    obtain sl where "pnl_loop server limit max_retries batch_data offset retry_count n events
                 = Some (batch_data @ [], events @ PnlGet offset # sl)"
      "sl = [] \<or> (\<exists>dl. sl = [PnlSleep dl] \<and> dl \<le> 60)" by auto
    then show ?thesis by blast
  qed
qed

lemma pnl_loop_terminates:
  assumes "0 < limit"
  shows "\<exists>r. pnl_loop server limit max_retries batch_data offset retry_count n events = Some r"
proof (induction batch_data offset retry_count n events
    rule: pnl_induct [OF assms, where max_retries = max_retries])
  case (1 batch_data offset retry_count n events)
  from pnl_step [of server limit max_retries batch_data offset retry_count n events]
  consider (stop) extra sl where
      "pnl_loop server limit max_retries batch_data offset retry_count n events
         = Some (batch_data @ extra, events @ PnlGet offset # sl)"
      "extra = [] \<or> pnl_page (server n offset) = PnlData extra"
      "sl = [] \<or> (\<exists>dl. sl = [PnlSleep dl] \<and> dl \<le> 60)"
    | (page) data where "pnl_page (server n offset) = PnlData data" "offset + limit < 10000"
      "pnl_loop server limit max_retries batch_data offset retry_count n events
         = pnl_loop server limit max_retries (batch_data @ data) (offset + limit) 0 (n + 1)
             (events @ [PnlGet offset, PnlSleep 0.1])"
    | (retry) dl where "int (retry_count + 1) < max_retries" "dl \<le> 60"
      "pnl_loop server limit max_retries batch_data offset retry_count n events
         = pnl_loop server limit max_retries batch_data offset (retry_count + 1) (n + 1)
             (events @ [PnlGet offset, PnlSleep dl])"
    by blast
  then show ?case
  proof cases
    case stop
    then show ?thesis by simp
  next
    case page
    then show ?thesis using "1.IH"(1) by simp
  next
    case retry
    then show ?thesis using "1.IH"(2) by simp
  qed
qed

lemma pnl_loop_requests:
  assumes "0 < limit"
  shows "retry_count < max 1 (nat max_retries) \<Longrightarrow>
         pnl_loop server limit max_retries batch_data offset retry_count n events = Some (bd, tr) \<Longrightarrow>
         count_list tr (PnlGet x)
           \<le> count_list events (PnlGet x)
              + (if x = offset then max 1 (nat max_retries) - retry_count
                 else if offset < x then max 1 (nat max_retries) else 0)"
proof (induction batch_data offset retry_count n events
    rule: pnl_induct [OF assms, where max_retries = max_retries])
  case (1 batch_data offset retry_count n events)
  note rc = "1.prems"(1) and res = "1.prems"(2)
  from pnl_step [of server limit max_retries batch_data offset retry_count n events]
  consider (stop) extra sl where
      "pnl_loop server limit max_retries batch_data offset retry_count n events
         = Some (batch_data @ extra, events @ PnlGet offset # sl)"
      "extra = [] \<or> pnl_page (server n offset) = PnlData extra"
      "sl = [] \<or> (\<exists>dl. sl = [PnlSleep dl] \<and> dl \<le> 60)"
    | (page) data where "pnl_page (server n offset) = PnlData data" "offset + limit < 10000"
      "pnl_loop server limit max_retries batch_data offset retry_count n events
         = pnl_loop server limit max_retries (batch_data @ data) (offset + limit) 0 (n + 1)
             (events @ [PnlGet offset, PnlSleep 0.1])"
    | (retry) dl where "int (retry_count + 1) < max_retries" "dl \<le> 60"
      "pnl_loop server limit max_retries batch_data offset retry_count n events
         = pnl_loop server limit max_retries batch_data offset (retry_count + 1) (n + 1)
             (events @ [PnlGet offset, PnlSleep dl])"
    by blast
  then show ?case
  proof cases
    case stop
    with res rc show ?thesis by auto
  next
    case page
    have "count_list tr (PnlGet x)
             \<le> count_list (events @ [PnlGet offset, PnlSleep 0.1]) (PnlGet x)
                + (if x = offset + limit then max 1 (nat max_retries) - 0
                   else if offset + limit < x then max 1 (nat max_retries) else 0)"
      using "1.IH"(1) [OF page(2), of "batch_data @ data" "events @ [PnlGet offset, PnlSleep 0.1]"]
        res page(3) by simp
    then show ?thesis using rc assms by (auto split: if_splits)
  next
    case retry
    have "retry_count + 1 < max 1 (nat max_retries)" using retry(1) by linarith
    then have "count_list tr (PnlGet x)
             \<le> count_list (events @ [PnlGet offset, PnlSleep dl]) (PnlGet x)
                + (if x = offset then max 1 (nat max_retries) - (retry_count + 1)
                   else if offset < x then max 1 (nat max_retries) else 0)"
      using "1.IH"(2) [OF retry(1), of "events @ [PnlGet offset, PnlSleep dl]"] res retry(3) by simp
    then show ?thesis using rc by (auto split: if_splits)
  qed
qed

lemma pnl_loop_events:
  assumes "0 < limit"
  shows "0 \<le> offset \<Longrightarrow>
         pnl_loop server limit max_retries batch_data offset retry_count n events = Some (bd, tr) \<Longrightarrow>
         e \<in> set tr \<Longrightarrow>
         e \<in> set events
         \<or> (\<exists>x. e = PnlGet x \<and> offset \<le> x \<and> (x < 10000 \<or> x = offset))
         \<or> (\<exists>d. e = PnlSleep d \<and> d \<le> 60)"
proof (induction batch_data offset retry_count n events
    rule: pnl_induct [OF assms, where max_retries = max_retries])
  case (1 batch_data offset retry_count n events)
  note pos = "1.prems"(1) and res = "1.prems"(2) and mem = "1.prems"(3)
  from pnl_step [of server limit max_retries batch_data offset retry_count n events]
  consider (stop) extra sl where
      "pnl_loop server limit max_retries batch_data offset retry_count n events
         = Some (batch_data @ extra, events @ PnlGet offset # sl)"
      "extra = [] \<or> pnl_page (server n offset) = PnlData extra"
      "sl = [] \<or> (\<exists>dl. sl = [PnlSleep dl] \<and> dl \<le> 60)"
    | (page) data where "pnl_page (server n offset) = PnlData data" "offset + limit < 10000"
      "pnl_loop server limit max_retries batch_data offset retry_count n events
         = pnl_loop server limit max_retries (batch_data @ data) (offset + limit) 0 (n + 1)
             (events @ [PnlGet offset, PnlSleep 0.1])"
    | (retry) dl where "int (retry_count + 1) < max_retries" "dl \<le> 60"
      "pnl_loop server limit max_retries batch_data offset retry_count n events
         = pnl_loop server limit max_retries batch_data offset (retry_count + 1) (n + 1)
             (events @ [PnlGet offset, PnlSleep dl])"
    by blast
  then show ?case
  proof cases
    case stop
    with res mem show ?thesis by auto
  next
    case page
    have p: "0 \<le> offset + limit" using pos assms by simp
    have "e \<in> set (events @ [PnlGet offset, PnlSleep 0.1])
         \<or> (\<exists>x. e = PnlGet x \<and> offset + limit \<le> x \<and> (x < 10000 \<or> x = offset + limit))
         \<or> (\<exists>d. e = PnlSleep d \<and> d \<le> 60)"
      using "1.IH"(1) [OF page(2) p, of "batch_data @ data" "events @ [PnlGet offset, PnlSleep 0.1]"]
        res page(3) mem by simp
    then show ?thesis using page(2) assms by auto
  next
    case retry
    have "e \<in> set (events @ [PnlGet offset, PnlSleep dl])
         \<or> (\<exists>x. e = PnlGet x \<and> offset \<le> x \<and> (x < 10000 \<or> x = offset))
         \<or> (\<exists>d. e = PnlSleep d \<and> d \<le> 60)"
      using "1.IH"(2) [OF retry(1) pos, of "events @ [PnlGet offset, PnlSleep dl]"]
        res retry(3) mem by simp
    then show ?thesis using retry(2) by auto
  qed
qed

lemma multiple_below:
  assumes "0 < (l :: int)" and "l dvd a" and "l dvd b" and "b < a"
  shows "b + l \<le> a"
proof -
  have "l dvd a - b" using assms(2,3) by (rule dvd_diff)
  moreover have "0 < a - b" using assms(4) by simp
  ultimately have "l \<le> a - b" by (rule zdvd_imp_le)
  then show ?thesis by simp
qed

lemma pnl_loop_records:
  assumes "0 < limit" and "limit dvd 10000"
    and honest: "\<And>n offset data. pnl_page (server n offset) = PnlData data
                   \<Longrightarrow> int (length data) \<le> limit"
  shows "limit dvd offset \<Longrightarrow> offset < 10000 \<Longrightarrow>
         pnl_loop server limit max_retries batch_data offset retry_count n events = Some (bd, tr) \<Longrightarrow>
         int (length bd) \<le> int (length batch_data) + (10000 - offset)"
proof (induction batch_data offset retry_count n events
    rule: pnl_induct [OF assms(1), where max_retries = max_retries])
  case (1 batch_data offset retry_count n events)
  note dv = "1.prems"(1) and lt = "1.prems"(2) and res = "1.prems"(3)
  have room: "offset + limit \<le> 10000"
    using multiple_below [OF assms(1) assms(2) dv lt] .
  from pnl_step [of server limit max_retries batch_data offset retry_count n events]
  consider (stop) extra sl where
      "pnl_loop server limit max_retries batch_data offset retry_count n events
         = Some (batch_data @ extra, events @ PnlGet offset # sl)"
      "extra = [] \<or> pnl_page (server n offset) = PnlData extra"
      "sl = [] \<or> (\<exists>dl. sl = [PnlSleep dl] \<and> dl \<le> 60)"
    | (page) data where "pnl_page (server n offset) = PnlData data" "offset + limit < 10000"
      "pnl_loop server limit max_retries batch_data offset retry_count n events
         = pnl_loop server limit max_retries (batch_data @ data) (offset + limit) 0 (n + 1)
             (events @ [PnlGet offset, PnlSleep 0.1])"
    | (retry) dl where "int (retry_count + 1) < max_retries" "dl \<le> 60"
      "pnl_loop server limit max_retries batch_data offset retry_count n events
         = pnl_loop server limit max_retries batch_data offset (retry_count + 1) (n + 1)
             (events @ [PnlGet offset, PnlSleep dl])"
    by blast
  then show ?case
  proof cases
    case stop
    from stop(2) have "int (length extra) \<le> limit"
      using honest [of n offset extra] assms(1) by auto
    with stop(1) res room show ?thesis by auto
  next
    case page
    have d: "limit dvd offset + limit" using dv by simp
    have "int (length bd) \<le> int (length (batch_data @ data)) + (10000 - (offset + limit))"
      using "1.IH"(1) [OF page(2) d page(2), of "batch_data @ data"
          "events @ [PnlGet offset, PnlSleep 0.1]"] res page(3) by simp
    moreover have "int (length data) \<le> limit" using honest [OF page(1)] .
    ultimately show ?thesis by simp
  next
    case retry
    show ?thesis
      using "1.IH"(2) [OF retry(1) dv lt, of "events @ [PnlGet offset, PnlSleep dl]"]
        res retry(3) by simp
  qed
qed

lemma pnl_page_data:
  "pnl_page r = PnlData data \<Longrightarrow> r = Response 200 (BodyList data)"
  by (auto simp: pnl_page_def split: http_result.splits body.splits if_splits)

text \<open>
  Claim C8, as the code has it. For a positive \<^verbatim>\<open>limit\<close> and every sequence of HTTP
  responses, the pagination loop of \<^verbatim>\<open>_fetch_batch_pnl\<close> ends. No offset is asked more
  than \<open>max 1 max_retries\<close> times, every offset asked lies in \<open>[0, 10000)\<close>, and no sleep
  is longer than 60 seconds. At any point of the loop, a status of the fatal set
  (400, 401, 403, 404) ends the batch at once; a 429 within the retry budget is followed by
  a sleep of \<open>min (2 * 2 ^ retry_count) 60\<close> seconds and a new request for the same offset;
  another status within the budget by a sleep of \<open>min (2 * 2 ^ (retry_count + 1)) 60\<close>
  seconds and a new request; an exception within the budget by a sleep of 2 seconds,
  whatever the retry count, and a new request. When the budget is used up, each of the
  three ends the batch with what was collected. When the limit divides 10000 (the default 25 does) and no
  page holds more records than the limit, at most 10000 records are collected. The loop
  bounds the offset, not the number of records: a page longer than the limit is appended
  whole.
\<close>

theorem fetch_batch_pnl_bounded:
  assumes "0 < limit"
  shows "\<exists>batch_data events.
      fetch_batch_pnl_run server limit max_retries = Some (batch_data, events)
    \<and> fetch_batch_pnl server limit max_retries = Some batch_data
    \<and> (\<forall>offset. count_list events (PnlGet offset) \<le> max 1 (nat max_retries))
    \<and> (\<forall>offset. PnlGet offset \<in> set events \<longrightarrow> 0 \<le> offset \<and> offset < 10000)
    \<and> (\<forall>d. PnlSleep d \<in> set events \<longrightarrow> d \<le> 60)
    \<and> (limit dvd 10000
         \<and> (\<forall>n offset data. server n offset = Response 200 (BodyList data)
                \<longrightarrow> int (length data) \<le> limit)
         \<longrightarrow> length batch_data \<le> 10000)
    \<and> (\<forall>bd offset retry_count n ev. pnl_page (server n offset) = PnlFatal \<longrightarrow>
          pnl_loop server limit max_retries bd offset retry_count n ev
            = Some (bd, ev @ [PnlGet offset]))
    \<and> (\<forall>bd offset retry_count n ev.
          pnl_page (server n offset) = PnlRateLimit \<and> int (retry_count + 1) < max_retries \<longrightarrow>
          pnl_loop server limit max_retries bd offset retry_count n ev
            = pnl_loop server limit max_retries bd offset (retry_count + 1) (n + 1)
                (ev @ [PnlGet offset, PnlSleep (min (2 * 2 ^ retry_count) 60)]))
    \<and> (\<forall>bd offset retry_count n ev.
          pnl_page (server n offset) = PnlOther \<and> int (retry_count + 1) < max_retries \<longrightarrow>
          pnl_loop server limit max_retries bd offset retry_count n ev
            = pnl_loop server limit max_retries bd offset (retry_count + 1) (n + 1)
                (ev @ [PnlGet offset, PnlSleep (min (2 * 2 ^ (retry_count + 1)) 60)]))
    \<and> (\<forall>bd offset retry_count n ev.
          pnl_page (server n offset) = PnlExn \<and> int (retry_count + 1) < max_retries \<longrightarrow>
          pnl_loop server limit max_retries bd offset retry_count n ev
            = pnl_loop server limit max_retries bd offset (retry_count + 1) (n + 1)
                (ev @ [PnlGet offset, PnlSleep 2]))
    \<and> (\<forall>bd offset retry_count n ev.
          pnl_page (server n offset) \<in> {PnlRateLimit, PnlOther, PnlExn}
          \<and> int (retry_count + 1) \<ge> max_retries \<longrightarrow>
          (\<exists>sl. pnl_loop server limit max_retries bd offset retry_count n ev
                  = Some (bd, ev @ PnlGet offset # sl)))"
proof -
  obtain batch_data events where
    run: "pnl_loop server limit max_retries [] 0 0 0 [] = Some (batch_data, events)"
    using pnl_loop_terminates [OF assms, of server max_retries "[]" 0 0 0 "[]"] by auto
  have r1: "fetch_batch_pnl_run server limit max_retries = Some (batch_data, events)"
    using run by (simp add: fetch_batch_pnl_run_def)
  have r2: "fetch_batch_pnl server limit max_retries = Some batch_data"
    using r1 by (simp add: fetch_batch_pnl_def)
  have cnt: "\<forall>offset. count_list events (PnlGet offset) \<le> max 1 (nat max_retries)"
  proof
    fix x
    have z: "(0 :: nat) < max 1 (nat max_retries)" by simp
    have "count_list events (PnlGet x)
           \<le> count_list [] (PnlGet x)
              + (if x = 0 then max 1 (nat max_retries) - 0
                 else if 0 < x then max 1 (nat max_retries) else 0)"
      using pnl_loop_requests [OF assms z run, of x] .
    then show "count_list events (PnlGet x) \<le> max 1 (nat max_retries)"
      by (auto split: if_splits)
  qed
  have ev: "e \<in> set events \<Longrightarrow>
              (\<exists>x. e = PnlGet x \<and> 0 \<le> x \<and> (x < 10000 \<or> x = 0)) \<or> (\<exists>d. e = PnlSleep d \<and> d \<le> 60)"
    for e
    using pnl_loop_events [OF assms _ run, of e] by simp
  have off: "\<forall>offset. PnlGet offset \<in> set events \<longrightarrow> 0 \<le> offset \<and> offset < 10000"
    using ev by fastforce
  have slp: "\<forall>d. PnlSleep d \<in> set events \<longrightarrow> d \<le> 60"
    using ev by fastforce
  have rec: "limit dvd 10000
         \<and> (\<forall>n offset data. server n offset = Response 200 (BodyList data)
                \<longrightarrow> int (length data) \<le> limit)
         \<longrightarrow> length batch_data \<le> 10000"
  proof
    assume h: "limit dvd 10000
         \<and> (\<forall>n offset data. server n offset = Response 200 (BodyList data)
                \<longrightarrow> int (length data) \<le> limit)"
    then have honest: "\<And>n offset data. pnl_page (server n offset) = PnlData data
                   \<Longrightarrow> int (length data) \<le> limit"
      using pnl_page_data by blast
    from h have dv: "limit dvd 10000" by simp
    have "int (length batch_data) \<le> int (length ([] :: 'a list)) + (10000 - 0)"
      using pnl_loop_records [OF assms dv honest _ _ run] by simp
    then show "length batch_data \<le> 10000" by simp
  qed
  have fatal: "\<forall>bd offset retry_count n ev. pnl_page (server n offset) = PnlFatal \<longrightarrow>
          pnl_loop server limit max_retries bd offset retry_count n ev
            = Some (bd, ev @ [PnlGet offset])"
    using pnl_loop_halt [where server = server] by blast
  have rate: "\<forall>bd offset retry_count n ev.
          pnl_page (server n offset) = PnlRateLimit \<and> int (retry_count + 1) < max_retries \<longrightarrow>
          pnl_loop server limit max_retries bd offset retry_count n ev
            = pnl_loop server limit max_retries bd offset (retry_count + 1) (n + 1)
                (ev @ [PnlGet offset, PnlSleep (min (2 * 2 ^ retry_count) 60)])"
  proof (intro allI impI)
    fix bd offset retry_count n ev
    assume "pnl_page (server n offset) = PnlRateLimit \<and> int (retry_count + 1) < max_retries"
    then show "pnl_loop server limit max_retries bd offset retry_count n ev
            = pnl_loop server limit max_retries bd offset (retry_count + 1) (n + 1)
                (ev @ [PnlGet offset, PnlSleep (min (2 * 2 ^ retry_count) 60)])"
      by (subst pnl_loop.simps) auto
  qed
  have other: "\<forall>bd offset retry_count n ev.
          pnl_page (server n offset) = PnlOther \<and> int (retry_count + 1) < max_retries \<longrightarrow>
          pnl_loop server limit max_retries bd offset retry_count n ev
            = pnl_loop server limit max_retries bd offset (retry_count + 1) (n + 1)
                (ev @ [PnlGet offset, PnlSleep (min (2 * 2 ^ (retry_count + 1)) 60)])"
  proof (intro allI impI)
    fix bd offset retry_count n ev
    assume "pnl_page (server n offset) = PnlOther \<and> int (retry_count + 1) < max_retries"
    then show "pnl_loop server limit max_retries bd offset retry_count n ev
            = pnl_loop server limit max_retries bd offset (retry_count + 1) (n + 1)
                (ev @ [PnlGet offset, PnlSleep (min (2 * 2 ^ (retry_count + 1)) 60)])"
      by (subst pnl_loop.simps) auto
  qed
  have exn: "\<forall>bd offset retry_count n ev.
          pnl_page (server n offset) = PnlExn \<and> int (retry_count + 1) < max_retries \<longrightarrow>
          pnl_loop server limit max_retries bd offset retry_count n ev
            = pnl_loop server limit max_retries bd offset (retry_count + 1) (n + 1)
                (ev @ [PnlGet offset, PnlSleep 2])"
  proof (intro allI impI)
    fix bd offset retry_count n ev
    assume "pnl_page (server n offset) = PnlExn \<and> int (retry_count + 1) < max_retries"
    then show "pnl_loop server limit max_retries bd offset retry_count n ev
            = pnl_loop server limit max_retries bd offset (retry_count + 1) (n + 1)
                (ev @ [PnlGet offset, PnlSleep 2])"
      by (subst pnl_loop.simps) auto
  qed
  have spent: "\<forall>bd offset retry_count n ev.
          pnl_page (server n offset) \<in> {PnlRateLimit, PnlOther, PnlExn}
          \<and> int (retry_count + 1) \<ge> max_retries \<longrightarrow>
          (\<exists>sl. pnl_loop server limit max_retries bd offset retry_count n ev
                  = Some (bd, ev @ PnlGet offset # sl))"
  proof (intro allI impI)
    fix bd offset retry_count n ev
    assume a: "pnl_page (server n offset) \<in> {PnlRateLimit, PnlOther, PnlExn}
          \<and> int (retry_count + 1) \<ge> max_retries"
    then have k: "pnl_page (server n offset) \<in> {PnlRateLimit, PnlOther, PnlExn}"
      and b: "int (retry_count + 1) \<ge> max_retries" by simp_all
    from pnl_loop_budget_spent [where server = server and n = n and offset = offset
        and limit = limit and batch_data = bd and events = ev, OF k b]
    show "\<exists>sl. pnl_loop server limit max_retries bd offset retry_count n ev
                  = Some (bd, ev @ PnlGet offset # sl)"
      by blast
  qed
  from r1 r2 cnt off slp rec fatal rate other exn spent show ?thesis by blast
qed

theorem fetch_batch_pnl_bounded_witness:
  "fetch_batch_pnl_run
     (\<lambda>n offset. if n = 0 then Response 429 BodyInvalid else Response 200 (BodyList [1, 2 :: nat]))
     25 5
   = Some ([1, 2], [PnlGet 0, PnlSleep 2, PnlGet 0])
   \<and> (0 :: int) < 25"
proof -
  let ?server = "\<lambda>(n :: nat) (offset :: int).
       if n = 0 then Response 429 BodyInvalid else Response 200 (BodyList [1, 2 :: nat])"
  have v: "fetch_batch_pnl_run ?server 25 5 = Some ([1, 2], [PnlGet 0, PnlSleep 2, PnlGet 0])"
    by (simp add: fetch_batch_pnl_run_def pnl_loop.simps pnl_page_def)
  have p: "(0 :: int) < 25" by simp
  from fetch_batch_pnl_bounded [OF p, of ?server 5] v p show ?thesis by blast
qed

text \<open>
  The claim as written bounds the records of a batch by 10000 for every sequence of
  responses, and has every error other than a 429 or a fatal status retried with
  exponential backoff. In the first run the first page holds 10001 records and the second
  none, with the default limit 25 and retry budget 5: the batch returns all 10001. In the
  second run the first three requests raise: each is followed by a sleep of 2 seconds, the
  pause does not grow.
\<close>

theorem oversized_page_and_fixed_exception_pause:
  "fetch_batch_pnl
     (\<lambda>n offset. if n = 0 then Response 200 (BodyList (replicate 10001 (0 :: nat)))
                  else Response 200 (BodyList []))
     25 5
   = Some (replicate 10001 0)
   \<and> length (replicate 10001 (0 :: nat)) > 10000
   \<and> fetch_batch_pnl_run
       (\<lambda>n offset. if n < 3 then RequestException else Response 200 (BodyList [7 :: nat]))
       25 5
     = Some ([7], [PnlGet 0, PnlSleep 2, PnlGet 0, PnlSleep 2, PnlGet 0, PnlSleep 2, PnlGet 0])"
  by (simp add: fetch_batch_pnl_def fetch_batch_pnl_run_def pnl_loop.simps pnl_page_def)

section \<open>Properties of the backfill\<close>






















end
